theory Spec2Isabelle
  imports Complex_Main "HOL-Library.List_Lexorder" "HOL-Library.Multiset"
begin

section \<open>Python values\<close>

text \<open>
  A Python \<open>str\<close> is a sequence of Unicode code points; comparison of two strings is
  lexicographic on code points, a proper prefix being smaller, which is the order
  \<open>List_Lexorder\<close> gives to lists. Literals of the source are written \<open>u ''...''\<close>;
  the Korean literals are given by their code points.
\<close>

type_synonym pystr = "nat list"

definition u :: "string \<Rightarrow> pystr" where
  "u s = map of_char s"

text \<open>\<open>sub in s\<close> on strings: \<open>sub\<close> occurs in \<open>s\<close> as a contiguous run.\<close>

fun is_prefix :: "pystr \<Rightarrow> pystr \<Rightarrow> bool" where
  "is_prefix [] s = True"
| "is_prefix (c # cs) [] = False"
| "is_prefix (c # cs) (d # ds) = (c = d \<and> is_prefix cs ds)"

fun py_in :: "pystr \<Rightarrow> pystr \<Rightarrow> bool" where
  "py_in sub [] = (sub = [])"
| "py_in sub (c # cs) = (is_prefix sub (c # cs) \<or> py_in sub cs)"

text \<open>
  \<open>str.strip()\<close> removes leading and trailing white space; the characters CPython
  counts as white space are the ones listed.
\<close>

definition isspace :: "nat \<Rightarrow> bool" where
  "isspace c = (c \<in> {0x9, 0xA, 0xB, 0xC, 0xD, 0x1C, 0x1D, 0x1E, 0x1F, 0x20, 0x85, 0xA0,
     0x1680, 0x2000, 0x2001, 0x2002, 0x2003, 0x2004, 0x2005, 0x2006, 0x2007, 0x2008,
     0x2009, 0x200A, 0x2028, 0x2029, 0x202F, 0x205F, 0x3000})"

definition strip :: "pystr \<Rightarrow> pystr" where
  "strip s = rev (dropWhile isspace (rev (dropWhile isspace s)))"

text \<open>\<open>sep.join(xs)\<close>.\<close>

fun join :: "pystr \<Rightarrow> pystr list \<Rightarrow> pystr" where
  "join sep [] = []"
| "join sep [x] = x"
| "join sep (x # y # ys) = x @ sep @ join sep (y # ys)"

text \<open>
  A Python \<open>float\<close> is a finite double (a rational number, kept here as a real), an
  infinity or a NaN. Only comparison with a constant, truth value and truncation are
  applied to floats below, and these are exact on the value.
\<close>

datatype pyfloat = Finite real | PosInf | NegInf | NaN

text \<open>
  The values \<open>json.loads\<close> produces. A dict is kept as the list of its items in
  insertion order; \<open>map_of\<close> is the lookup.
\<close>

datatype pyval =
    PNone
  | PBool bool
  | PInt int
  | PFloat pyfloat
  | PStr pystr
  | PList "pyval list"
  | PDict "(pystr \<times> pyval) list"

datatype exn =
    ValueError
  | TypeError
  | OverflowError
  | AttributeError
  | GatewayError pystr

text \<open>
  The builtins of the Python runtime that depend on Unicode tables or on the grammar of
  numerals and JSON are parameters of the model: every theorem below holds for every
  runtime. \<open>None\<close> stands for the exception the builtin raises.
\<close>

record runtime =
  rt_lower :: "pystr \<Rightarrow> pystr"
  rt_repr :: "pyval \<Rightarrow> pystr"
  rt_int_of_str :: "pystr \<Rightarrow> int option"
  rt_float_of_str :: "pystr \<Rightarrow> pyfloat option"
  rt_float_of_int :: "int \<Rightarrow> pyfloat option"
  rt_json_loads :: "pystr \<Rightarrow> pyval option"
  rt_splitlines :: "pystr \<Rightarrow> pystr list"

text \<open>Truth value of a value, as \<open>or\<close>, \<open>not\<close> and \<open>if\<close> take it.\<close>

fun truthy :: "pyval \<Rightarrow> bool" where
  "truthy PNone = False"
| "truthy (PBool b) = b"
| "truthy (PInt n) = (n \<noteq> 0)"
| "truthy (PFloat (Finite r)) = (r \<noteq> 0)"
| "truthy (PFloat f) = True"
| "truthy (PStr s) = (s \<noteq> [])"
| "truthy (PList xs) = (xs \<noteq> [])"
| "truthy (PDict kvs) = (kvs \<noteq> [])"

definition py_or :: "pyval \<Rightarrow> pyval \<Rightarrow> pyval" where
  "py_or a b = (if truthy a then a else b)"

text \<open>\<open>d.get(k, dflt)\<close>; \<open>d.get(k)\<close> is \<open>py_get d k PNone\<close>.\<close>

definition py_get :: "(pystr \<times> pyval) list \<Rightarrow> pystr \<Rightarrow> pyval \<Rightarrow> pyval" where
  "py_get d k dflt = (case map_of d k of None \<Rightarrow> dflt | Some v \<Rightarrow> v)"

text \<open>\<open>float(v)\<close>, \<open>int(v)\<close> and \<open>str(v)\<close>.\<close>

fun py_float :: "runtime \<Rightarrow> pyval \<Rightarrow> exn + pyfloat" where
  "py_float rt PNone = Inl TypeError"
| "py_float rt (PBool b) = Inr (Finite (if b then 1 else 0))"
| "py_float rt (PInt n) =
     (case rt_float_of_int rt n of None \<Rightarrow> Inl OverflowError | Some f \<Rightarrow> Inr f)"
| "py_float rt (PFloat f) = Inr f"
| "py_float rt (PStr s) =
     (case rt_float_of_str rt s of None \<Rightarrow> Inl ValueError | Some f \<Rightarrow> Inr f)"
| "py_float rt (PList xs) = Inl TypeError"
| "py_float rt (PDict kvs) = Inl TypeError"

fun py_int :: "runtime \<Rightarrow> pyval \<Rightarrow> exn + int" where
  "py_int rt PNone = Inl TypeError"
| "py_int rt (PBool b) = Inr (if b then 1 else 0)"
| "py_int rt (PInt n) = Inr n"
| "py_int rt (PFloat (Finite r)) = Inr (if 0 \<le> r then \<lfloor>r\<rfloor> else \<lceil>r\<rceil>)"
| "py_int rt (PFloat NaN) = Inl ValueError"
| "py_int rt (PFloat f) = Inl OverflowError"
| "py_int rt (PStr s) =
     (case rt_int_of_str rt s of None \<Rightarrow> Inl ValueError | Some n \<Rightarrow> Inr n)"
| "py_int rt (PList xs) = Inl TypeError"
| "py_int rt (PDict kvs) = Inl TypeError"

fun py_str :: "runtime \<Rightarrow> pyval \<Rightarrow> pystr" where
  "py_str rt (PStr s) = s"
| "py_str rt v = rt_repr rt v"

text \<open>\<open>f >= c\<close> for a float \<open>f\<close> and a finite constant \<open>c\<close>.\<close>

fun float_ge :: "pyfloat \<Rightarrow> real \<Rightarrow> bool" where
  "float_ge (Finite r) c = (c \<le> r)"
| "float_ge PosInf c = True"
| "float_ge NegInf c = False"
| "float_ge NaN c = False"

text \<open>
  A runtime for the closed examples of this theory. It agrees with CPython on what the
  examples reach: lower-casing of ASCII text, \<open>float\<close> of a small integer,
  \<open>json.loads\<close> of the one JSON document the examples use and of texts that are not
  JSON, and \<open>splitlines\<close> of text whose only line boundary is the line feed. The
  remaining builtins are reached by no example.
\<close>

fun split_lf :: "pystr \<Rightarrow> pystr \<Rightarrow> pystr list" where
  "split_lf [] line = (if line = [] then [] else [line])"
| "split_lf (c # cs) line = (if c = 10 then line # split_lf cs [] else split_lf cs (line @ [c]))"

definition ascii_lower :: "nat \<Rightarrow> nat" where
  "ascii_lower c = (if 65 \<le> c \<and> c \<le> 90 then c + 32 else c)"

definition abort_json :: pystr where
  "abort_json = u ''{\"decision\":\"abort\",\"hallucination_count\":5,\"targets\":[]}''"

definition example_rt :: runtime where
  "example_rt = \<lparr>
     rt_lower = map ascii_lower,
     rt_repr = (\<lambda>v. []),
     rt_int_of_str = (\<lambda>s. None),
     rt_float_of_str = (\<lambda>s. None),
     rt_float_of_int = (\<lambda>n. Some (Finite (of_int n))),
     rt_json_loads = (\<lambda>s. if s = abort_json
        then Some (PDict [(u ''decision'', PStr (u ''abort'')),
                          (u ''hallucination_count'', PInt 5),
                          (u ''targets'', PList [])])
        else None),
     rt_splitlines = (\<lambda>s. split_lf s []) \<rparr>"

subsection \<open>Properties of the string operations\<close>

text \<open>\<open>py_in\<close> is containment as a contiguous run.\<close>

lemma is_prefix_iff: "is_prefix sub s \<longleftrightarrow> (\<exists>b. s = sub @ b)"
  by (induction sub s rule: is_prefix.induct) auto

lemma py_in_iff: "py_in sub s \<longleftrightarrow> (\<exists>a b. s = a @ sub @ b)"
proof (induction s)
  case Nil
  show ?case by auto
next
  case (Cons c cs)
  show ?case
  proof
    assume "py_in sub (c # cs)"
    then consider "is_prefix sub (c # cs)" | "py_in sub cs" by auto
    then show "\<exists>a b. c # cs = a @ sub @ b"
    proof cases
      case 1
      then obtain b where "c # cs = sub @ b" by (auto simp: is_prefix_iff)
      then have "c # cs = [] @ sub @ b" by simp
      then show ?thesis by blast
    next
      case 2
      with Cons.IH obtain a b where "cs = a @ sub @ b" by auto
      then have "c # cs = (c # a) @ sub @ b" by simp
      then show ?thesis by blast
    qed
  next
    assume "\<exists>a b. c # cs = a @ sub @ b"
    then obtain a b where ab: "c # cs = a @ sub @ b" by auto
    show "py_in sub (c # cs)"
    proof (cases a)
      case Nil
      with ab have "is_prefix sub (c # cs)" by (auto simp: is_prefix_iff)
      then show ?thesis by simp
    next
      case (Cons x xs)
      with ab have "cs = xs @ sub @ b" by simp
      with Cons.IH have "py_in sub cs" by auto
      then show ?thesis by simp
    qed
  qed
qed


section \<open>The Verifier's decision policy\<close>

text \<open>
  \<open>FeedbackFactCheckerAgent._decide\<close>. The result dict has the keys \<open>status\<close> and
  \<open>metrics\<close>; it is a record here. The three coercions are evaluated in the order of
  the source, and the first that raises ends the call.
\<close>

datatype status = Ok | Abort | NeedsRevision

record decision =
  status :: status
  overlap_ratio :: pyfloat
  hallucination_count :: int

definition overlap_of :: "runtime \<Rightarrow> (pystr \<times> pyval) list \<Rightarrow> exn + pyfloat" where
  "overlap_of rt payload =
     py_float rt (py_or (py_get payload (u ''overlap_ratio'') (PFloat (Finite 0)))
                        (PFloat (Finite 0)))"

definition hcount_of :: "runtime \<Rightarrow> (pystr \<times> pyval) list \<Rightarrow> exn + int" where
  "hcount_of rt payload =
     py_int rt (py_or (py_get payload (u ''hallucination_count'') (PInt 0)) (PInt 0))"

definition decision_of :: "runtime \<Rightarrow> (pystr \<times> pyval) list \<Rightarrow> pystr" where
  "decision_of rt payload =
     rt_lower rt (py_str rt (py_get payload (u ''decision'') (PStr [])))"

definition decide :: "runtime \<Rightarrow> (pystr \<times> pyval) list \<Rightarrow> exn + decision" where
  "decide rt payload =
     (case overlap_of rt payload of
        Inl e \<Rightarrow> Inl e
      | Inr overlap \<Rightarrow>
     (case hcount_of rt payload of
        Inl e \<Rightarrow> Inl e
      | Inr hcount \<Rightarrow>
     (let decision = decision_of rt payload;
          result = (\<lambda>s. \<lparr>status = s, overlap_ratio = overlap, hallucination_count = hcount\<rparr>)
      in if decision = u ''pass'' \<or> decision = u ''ok'' then Inr (result Ok)
         else if decision = u ''abort'' \<or> 3 \<le> hcount then Inr (result Abort)
         else if float_ge overlap 0.25 \<and> hcount \<le> 1 then Inr (result Ok)
         else Inr (result NeedsRevision))))"


subsection \<open>Properties of the decision policy\<close>

text \<open>
  C1 (as the claim states it, refuted). The claim: a payload with
  \<open>hallucination_count \<ge> 3\<close> is always judged \<open>abort\<close>, also when its decision is
  \<open>pass\<close>. The source tests the decision for \<open>pass\<close> and \<open>ok\<close> first, so the payload
  \<open>{"decision": "pass", "hallucination_count": 5}\<close> is approved.
\<close>

theorem decide_pass_overrides_count:
  "hcount_of example_rt [(u ''decision'', PStr (u ''pass'')), (u ''hallucination_count'', PInt 5)]
     = Inr 5
   \<and> decide example_rt [(u ''decision'', PStr (u ''pass'')), (u ''hallucination_count'', PInt 5)]
     = Inr \<lparr>status = Ok, overlap_ratio = Finite 0, hallucination_count = 5\<rparr>"
  by (simp add: decide_def overlap_of_def hcount_of_def decision_of_def py_get_def py_or_def
      example_rt_def ascii_lower_def u_def)

text \<open>
  C1 (amended). When the three fields coerce and the hallucination count is at least 3,
  the status is \<open>abort\<close> unless the lower-cased decision is \<open>pass\<close> or \<open>ok\<close>, in which
  case it is \<open>ok\<close>; the overlap ratio has no influence on the status.
\<close>

theorem decide_count_at_least_three:
  assumes "overlap_of rt payload = Inr ov"
    and "hcount_of rt payload = Inr h"
    and "3 \<le> h"
  shows "decide rt payload =
           Inr \<lparr>status = (if decision_of rt payload = u ''pass'' \<or> decision_of rt payload = u ''ok''
                            then Ok else Abort),
                overlap_ratio = ov, hallucination_count = h\<rparr>"
  using assms by (simp add: decide_def Let_def)

theorem decide_count_at_least_three_witness:
  "decide example_rt [(u ''decision'', PStr (u ''Revise'')), (u ''overlap_ratio'', PFloat (Finite 0.9)),
                      (u ''hallucination_count'', PInt 3)]
     = Inr \<lparr>status = Abort, overlap_ratio = Finite 0.9, hallucination_count = 3\<rparr>"
proof -
  let ?p = "[(u ''decision'', PStr (u ''Revise'')), (u ''overlap_ratio'', PFloat (Finite 0.9)),
             (u ''hallucination_count'', PInt 3)]"
  have ov: "overlap_of example_rt ?p = Inr (Finite 0.9)"
    by (simp add: overlap_of_def py_get_def py_or_def u_def)
  have hc: "hcount_of example_rt ?p = Inr 3"
    by (simp add: hcount_of_def py_get_def py_or_def u_def)
  have d: "decision_of example_rt ?p = u ''revise''"
    by (simp add: decision_of_def py_get_def example_rt_def ascii_lower_def u_def)
  have "u ''revise'' \<noteq> u ''pass''" "u ''revise'' \<noteq> u ''ok''"
    by (simp_all add: u_def)
  with decide_count_at_least_three [OF ov hc] d show ?thesis
    by simp
qed

text \<open>
  C2. When the lower-cased decision is none of \<open>pass\<close>, \<open>ok\<close> and \<open>abort\<close>, the overlap
  ratio is at least 0.25 and the hallucination count is at most 1, the status is \<open>ok\<close>.
  The decision is compared after \<open>str(...).lower()\<close>, as the source does.
\<close>

theorem decide_lenient_band:
  assumes "overlap_of rt payload = Inr ov"
    and "hcount_of rt payload = Inr h"
    and "float_ge ov 0.25"
    and "h \<le> 1"
    and "decision_of rt payload \<noteq> u ''pass''"
    and "decision_of rt payload \<noteq> u ''ok''"
    and "decision_of rt payload \<noteq> u ''abort''"
  shows "decide rt payload = Inr \<lparr>status = Ok, overlap_ratio = ov, hallucination_count = h\<rparr>"
  using assms by (simp add: decide_def Let_def)

theorem decide_lenient_band_witness:
  "decide example_rt [(u ''decision'', PStr (u ''revise'')), (u ''overlap_ratio'', PFloat (Finite 0.25)),
                      (u ''hallucination_count'', PInt 1)]
     = Inr \<lparr>status = Ok, overlap_ratio = Finite 0.25, hallucination_count = 1\<rparr>"
proof -
  let ?p = "[(u ''decision'', PStr (u ''revise'')), (u ''overlap_ratio'', PFloat (Finite 0.25)),
             (u ''hallucination_count'', PInt 1)]"
  have ov: "overlap_of example_rt ?p = Inr (Finite 0.25)"
    by (simp add: overlap_of_def py_get_def py_or_def u_def)
  have hc: "hcount_of example_rt ?p = Inr 1"
    by (simp add: hcount_of_def py_get_def py_or_def u_def)
  have d: "decision_of example_rt ?p = u ''revise''"
    by (simp add: decision_of_def py_get_def example_rt_def ascii_lower_def u_def)
  have ne: "u ''revise'' \<noteq> u ''pass''" "u ''revise'' \<noteq> u ''ok''" "u ''revise'' \<noteq> u ''abort''"
    by (simp_all add: u_def)
  show ?thesis
    using decide_lenient_band [OF ov hc, unfolded d] ne by simp
qed


section \<open>The unpolished merge\<close>

text \<open>
  \<open>md_join\<close> of \<open>utils.py\<close>. \<open>sorted(parts, key=lambda x: x[0])\<close> is a stable sort on
  the first component, which is what \<open>sort_key fst\<close> computes.
\<close>

definition nl2 :: pystr where
  "nl2 = u ''\<newline>\<newline>''"

definition section_block :: "pystr \<times> pystr \<Rightarrow> pystr" where
  "section_block p = (case p of (k, v) \<Rightarrow> u ''## '' @ k @ nl2 @ v)"

definition md_join :: "pystr \<Rightarrow> (pystr \<times> pystr) list \<Rightarrow> pystr" where
  "md_join title parts =
     (let parts_sorted = sort_key fst parts;
          sections = map section_block parts_sorted
      in u ''# '' @ title @ nl2 @ join nl2 sections)"

lemma filter_key_distinct:
  "distinct (map f zs) \<Longrightarrow> k \<in> set zs \<Longrightarrow> filter (\<lambda>x. f k = f x) zs = [k]"
proof (induction zs)
  case Nil
  then show ?case by simp
next
  case (Cons z zs)
  show ?case
  proof (cases "k = z")
    case True
    with Cons.prems have "\<forall>x\<in>set zs. f z \<noteq> f x" by auto
    then have "filter (\<lambda>x. f z = f x) zs = []" by (simp add: filter_empty_conv)
    with True show ?thesis by simp
  next
    case False
    with Cons.prems have kz: "k \<in> set zs" by auto
    have "f z \<notin> f ` set zs" using Cons.prems(1) by simp
    with kz have "f k \<noteq> f z" by (metis imageI)
    with Cons kz show ?thesis by simp
  qed
qed

lemma distinct_keys_permuted:
  assumes "distinct (map f xs)" and "mset ys = mset xs"
  shows "distinct (map f ys)"
proof -
  have "mset (map f ys) = mset (map f xs)" using assms(2) by (metis mset_map)
  then show ?thesis using assms(1) by (metis mset_eq_imp_distinct_iff)
qed

lemma sort_key_permuted:
  assumes "distinct (map f xs)" and "mset ys = mset xs"
  shows "sort_key f ys = sort_key f xs"
proof (rule properties_for_sort_key)
  show "mset (sort_key f xs) = mset ys" using assms(2) by simp
  show "sorted (map f (sort_key f xs))" by simp
  fix k assume k: "k \<in> set (sort_key f xs)"
  have dy: "distinct (map f ys)"
    using assms by (rule distinct_keys_permuted)
  have ds: "distinct (map f (sort_key f xs))"
    using assms(1) by (rule distinct_keys_permuted) simp
  have ky: "k \<in> set ys" using k assms(2) by (metis mset_eq_setD set_sort)
  show "filter (\<lambda>x. f k = f x) (sort_key f xs) = filter (\<lambda>x. f k = f x) ys"
    using filter_key_distinct [OF ds k] filter_key_distinct [OF dy ky] by simp
qed

lemma sort_key_strict:
  assumes "distinct (map f xs)"
  shows "sorted_wrt (<) (map f (sort_key f xs))"
proof -
  have "distinct (map f (sort_key f xs))"
    using assms by (rule distinct_keys_permuted) simp
  then show ?thesis by (simp add: strict_sorted_iff)
qed

text \<open>
  C3. For sections with pairwise distinct identities the merge does not depend on the
  order of the input list: any rearrangement of the list gives the same string. The
  string is the title heading followed by the blocks of the sections, joined by blank
  lines, the sections taken in strictly ascending order of identity. (That two calls
  on the same arguments agree is what being a function of \<open>title\<close> and \<open>parts\<close> says.)
\<close>

theorem md_join_deterministic:
  assumes "distinct (map fst parts)" and "mset parts' = mset parts"
  shows "md_join title parts' = md_join title parts
       \<and> (\<exists>ps. mset ps = mset parts \<and> sorted_wrt (<) (map fst ps)
             \<and> md_join title parts = u ''# '' @ title @ nl2 @ join nl2 (map section_block ps))"
proof -
  have "sort_key fst parts' = sort_key fst parts"
    using assms by (rule sort_key_permuted)
  then have same: "md_join title parts' = md_join title parts"
    by (simp add: md_join_def)
  have "mset (sort_key fst parts) = mset parts" by simp
  moreover have "sorted_wrt (<) (map fst (sort_key fst parts))"
    using assms(1) by (rule sort_key_strict)
  moreover have "md_join title parts =
      u ''# '' @ title @ nl2 @ join nl2 (map section_block (sort_key fst parts))"
    by (simp add: md_join_def)
  ultimately show ?thesis using same by blast
qed

theorem md_join_deterministic_witness:
  "md_join (u ''T'') [(u ''a'', u ''y''), (u ''b'', u ''x'')]
     = md_join (u ''T'') [(u ''b'', u ''x''), (u ''a'', u ''y'')]
   \<and> md_join (u ''T'') [(u ''b'', u ''x''), (u ''a'', u ''y'')]
     = u ''# T\<newline>\<newline>## a\<newline>\<newline>y\<newline>\<newline>## b\<newline>\<newline>x''"
proof -
  have d: "distinct (map fst [(u ''b'', u ''x''), (u ''a'', u ''y'')])"
    by (simp add: u_def)
  have m: "mset [(u ''a'', u ''y''), (u ''b'', u ''x'')] = mset [(u ''b'', u ''x''), (u ''a'', u ''y'')]"
    by simp
  have "md_join (u ''T'') [(u ''b'', u ''x''), (u ''a'', u ''y'')]
     = u ''# T\<newline>\<newline>## a\<newline>\<newline>y\<newline>\<newline>## b\<newline>\<newline>x''"
    by (simp add: md_join_def section_block_def nl2_def u_def)
  with md_join_deterministic [OF d m, of "u ''T''"] show ?thesis by blast
qed


section \<open>Requests to the model gateway\<close>

text \<open>
  The text of a request to the model gateway is kept symbolic: a constructor stands for
  the f-string of the source and carries the values interpolated into it. \<open>PlanPrompt\<close>
  is the instruction \<open>analyze\<close> gives a planned section; \<open>RevisePrompt key raw text\<close>
  is the one of \<open>revise_parts\<close>, \<open>SelectedPrompt key raw notes text\<close> the one of
  \<open>revise_selected_parts\<close>. The length and difficulty levels of a build are fixed and
  left out.
\<close>

datatype prompt =
    PlanPrompt pystr
  | RevisePrompt pystr pystr pystr
  | SelectedPrompt pystr pystr pystr pystr

record section_plan =
  plan_key :: pystr
  plan_prompt :: prompt

datatype request =
    AskPlan
  | AskGenerate pystr prompt
  | AskFormat pystr pystr
  | AskVerify pystr "pystr list"

section \<open>Parallel generation\<close>

text \<open>
  \<open>parallel_map\<close> of \<open>utils.py\<close> and \<open>Delegator.run_parallel_generation\<close>. A task is
  \<open>(task_id, section_prompt, section_key)\<close>; the task id \<open>str(i + 1)\<close> is kept as the
  number. The calls run on a thread pool, so what the gateway answers is given per task
  and per attempt (\<open>attempts\<close>: \<open>Inl\<close> is the message of the exception raised), and the
  order in which \<open>as_completed\<close> yields the futures is the parameter \<open>order\<close>, a list
  of positions in \<open>tasks\<close>. \<open>ThreadPoolExecutor\<close> raises \<open>ValueError\<close> when
  \<open>max_workers\<close> is not positive. The log lines of the pool's threads are left out.
\<close>

type_synonym task = "nat \<times> prompt \<times> pystr"

type_synonym attempts = "nat \<Rightarrow> nat \<Rightarrow> request \<Rightarrow> pystr + pystr"

definition do_one :: "attempts \<Rightarrow> task \<Rightarrow> pystr + pystr" where
  "do_one gen task =
     (case task of (task_id, section_prompt, key) \<Rightarrow>
        (case gen task_id 0 (AskGenerate key section_prompt) of
           Inr text \<Rightarrow> Inr text
         | Inl e \<Rightarrow> gen task_id 1 (AskGenerate key section_prompt)))"

definition parallel_map ::
  "task list \<Rightarrow> (task \<Rightarrow> pystr + pystr) \<Rightarrow> int \<Rightarrow> nat list \<Rightarrow> exn + (pystr \<times> pystr) list" where
  "parallel_map tasks worker_fn max_workers order =
     (if max_workers \<le> 0 then Inl ValueError
      else Inr (map (\<lambda>j. case tasks ! j of (task_id, section_prompt, key) \<Rightarrow>
                       (case worker_fn (task_id, section_prompt, key) of
                          Inr text \<Rightarrow> (key, text)
                        | Inl e \<Rightarrow> (key, u ''__ERROR__: '' @ e))) order))"

definition make_tasks :: "section_plan list \<Rightarrow> task list" where
  "make_tasks plans = map (\<lambda>(i, p). (i + 1, plan_prompt p, plan_key p)) (enumerate 0 plans)"

definition run_parallel_generation ::
  "attempts \<Rightarrow> section_plan list \<Rightarrow> int \<Rightarrow> nat list \<Rightarrow> exn + (pystr \<times> pystr) list" where
  "run_parallel_generation gen plans max_workers order =
     parallel_map (make_tasks plans) (do_one gen) max_workers order"

subsection \<open>Properties of parallel generation\<close>

lemma make_tasks_nth:
  "j < length plans \<Longrightarrow> make_tasks plans ! j = (j + 1, plan_prompt (plans ! j), plan_key (plans ! j))"
  by (simp add: make_tasks_def nth_enumerate_eq)

lemma order_in_range:
  assumes "mset order = mset [0..<n]" and "j \<in> set order"
  shows "j < n"
proof -
  have "set order = set [0..<n]" using assms(1) by (rule mset_eq_setD)
  with assms(2) show ?thesis by simp
qed

text \<open>
  C4. One unit \<open>f\<close> fails on the first attempt and on the retry, every other unit
  succeeds (at once or on its retry) with output \<open>out j\<close>. Then the batch returns, with
  one entry per unit: the entries are, in completion order, the unit's key with the
  error marker \<open>__ERROR__: message\<close> for \<open>f\<close> and with its output for every other unit.
\<close>

theorem one_failure_stays_local:
  assumes workers: "0 < max_workers"
    and order: "mset order = mset [0..<length plans]"
    and f: "f < length plans"
    and first: "gen (f + 1) 0 (AskGenerate (plan_key (plans ! f)) (plan_prompt (plans ! f))) = Inl e0"
    and retry: "gen (f + 1) 1 (AskGenerate (plan_key (plans ! f)) (plan_prompt (plans ! f))) = Inl e1"
    and others: "\<forall>j<length plans. j \<noteq> f \<longrightarrow>
                   do_one gen (j + 1, plan_prompt (plans ! j), plan_key (plans ! j)) = Inr (out j)"
  shows "\<exists>parts. run_parallel_generation gen plans max_workers order = Inr parts
           \<and> length parts = length plans
           \<and> parts = map (\<lambda>j. (plan_key (plans ! j), if j = f then u ''__ERROR__: '' @ e1 else out j)) order
           \<and> mset parts = mset (map (\<lambda>j. (plan_key (plans ! j), if j = f then u ''__ERROR__: '' @ e1 else out j))
                                  [0..<length plans])"
proof -
  let ?entry = "\<lambda>j. (plan_key (plans ! j), if j = f then u ''__ERROR__: '' @ e1 else out j)"
  have fail: "do_one gen (f + 1, plan_prompt (plans ! f), plan_key (plans ! f)) = Inl e1"
    using first retry by (simp add: do_one_def)
  have each: "(case make_tasks plans ! j of (task_id, section_prompt, k) \<Rightarrow>
                 (case do_one gen (task_id, section_prompt, k) of
                    Inr text \<Rightarrow> (k, text)
                  | Inl e \<Rightarrow> (k, u ''__ERROR__: '' @ e))) = ?entry j"
    if "j \<in> set order" for j
  proof -
    have j: "j < length plans" using order that by (rule order_in_range)
    show ?thesis
    proof (cases "j = f")
      case True
      with j fail show ?thesis by (simp add: make_tasks_nth)
    next
      case False
      with j others have "do_one gen (j + 1, plan_prompt (plans ! j), plan_key (plans ! j)) = Inr (out j)"
        by simp
      with j False show ?thesis by (simp add: make_tasks_nth)
    qed
  qed
  have run: "run_parallel_generation gen plans max_workers order = Inr (map ?entry order)"
    using workers each by (simp add: run_parallel_generation_def parallel_map_def cong: map_cong)
  have len: "length order = length plans"
    using order by (metis length_upt mset_eq_length minus_nat.diff_0)
  have "mset (map ?entry order) = mset (map ?entry [0..<length plans])"
    using order by (metis mset_map)
  with run len show ?thesis by simp
qed

definition example_plans :: "section_plan list" where
  "example_plans = [\<lparr>plan_key = u ''A'', plan_prompt = PlanPrompt (u ''A'')\<rparr>,
                    \<lparr>plan_key = u ''B'', plan_prompt = PlanPrompt (u ''B'')\<rparr>,
                    \<lparr>plan_key = u ''C'', plan_prompt = PlanPrompt (u ''C'')\<rparr>]"

definition example_attempts :: attempts where
  "example_attempts task_id attempt req =
     (if task_id = 2 then Inl (u ''timeout'')
      else if task_id = 3 \<and> attempt = 0 then Inl (u ''busy'')
      else Inr (u ''text''))"

theorem one_failure_stays_local_witness:
  "run_parallel_generation example_attempts example_plans 4 [2, 0, 1]
     = Inr [(u ''C'', u ''text''), (u ''A'', u ''text''), (u ''B'', u ''__ERROR__: timeout'')]"
proof -
  have order: "mset [2, 0, 1] = mset [0..<length example_plans]"
    by (simp add: example_plans_def upt_rec)
  have f: "(1::nat) < length example_plans"
    by (simp add: example_plans_def)
  have first: "example_attempts (1 + 1) 0
      (AskGenerate (plan_key (example_plans ! 1)) (plan_prompt (example_plans ! 1))) = Inl (u ''timeout'')"
    by (simp add: example_attempts_def)
  have retry: "example_attempts (1 + 1) 1
      (AskGenerate (plan_key (example_plans ! 1)) (plan_prompt (example_plans ! 1))) = Inl (u ''timeout'')"
    by (simp add: example_attempts_def)
  have others: "\<forall>j<length example_plans. j \<noteq> 1 \<longrightarrow>
      do_one example_attempts (j + 1, plan_prompt (example_plans ! j), plan_key (example_plans ! j))
        = Inr ((\<lambda>j. u ''text'') j)"
    by (simp add: example_plans_def do_one_def example_attempts_def less_Suc_eq numeral_3_eq_3)
  have "(0::int) < 4" by simp
  from one_failure_stays_local [OF this order f first retry others]
  show ?thesis
    by (simp add: example_plans_def u_def)
qed


section \<open>The gateway and the log in sequential code\<close>

text \<open>
  Outside the thread pool the calls of a build are sequential. The world a build acts
  on is the list of requests made to the gateway so far and the lines logged so far.
  The gateway is any function from the number of earlier requests and the request to
  an answer, \<open>Inl\<close> being the message of the exception \<open>GeminiClient.ask\<close> raises
  (an \<open>Exception\<close>); so the answer to a request may depend on everything before it.
  Each \<open>logging\<close> call of the sequential functions modelled below is a line of the
  log.
\<close>

datatype logline =
    LogPlanStart
  | LogAnalyzeStart
  | LogAnalyzeDefault
  | LogAnalyzed nat
  | LogPlanDone
  | LogGenerate pystr
  | LogGenerated pystr
  | LogReviseStart
  | LogReviseKept pystr pystr
  | LogReviseDone
  | LogSelectStart
  | LogSelectFallback
  | LogSelectKept pystr pystr
  | LogSelectDone
  | LogFormatStart
  | LogFormatDone
  | LogVerifyStart
  | LogFallbackAbort
  | LogFallbackOk
  | LogFallbackRevise
  | LogVerdictAbort
  | LogVerdictRevise
  | LogVerdictOk
  | LogAbortRewrite
  | LogApproved
  | LogLoop nat nat
  | LogExceeded

record world =
  asked :: "request list"
  logged :: "logline list"

type_synonym gateway = "nat \<Rightarrow> request \<Rightarrow> pystr + pystr"

definition ask :: "gateway \<Rightarrow> request \<Rightarrow> world \<Rightarrow> (pystr + pystr) \<times> world" where
  "ask gw req w = (gw (length (asked w)) req, w\<lparr>asked := asked w @ [req]\<rparr>)"

definition log :: "logline \<Rightarrow> world \<Rightarrow> world" where
  "log l w = w\<lparr>logged := logged w @ [l]\<rparr>"

text \<open>\<open>ContentCreatorWorker.generate\<close>: one request for one section.\<close>

definition generate :: "gateway \<Rightarrow> pystr \<Rightarrow> prompt \<Rightarrow> world \<Rightarrow> (pystr + pystr) \<times> world" where
  "generate gw key section_prompt w =
     (case ask gw (AskGenerate key section_prompt) (log (LogGenerate key) w) of
        (Inl e, w') \<Rightarrow> (Inl e, w')
      | (Inr text, w') \<Rightarrow> (Inr text, log (LogGenerated key) w'))"



section \<open>Revision\<close>

text \<open>
  \<open>Delegator.revise_parts\<close>; \<open>revise_each\<close> is its \<open>for\<close> loop. The \<open>except\<close> branch
  keeps \<open>text\<close>.
\<close>

fun revise_each ::
  "gateway \<Rightarrow> pystr \<Rightarrow> (pystr \<times> pystr) list \<Rightarrow> world \<Rightarrow> (pystr \<times> pystr) list \<times> world" where
  "revise_each gw feedback_raw [] w = ([], w)"
| "revise_each gw feedback_raw ((key, text) # rest) w =
     (case generate gw key (RevisePrompt key feedback_raw text) w of
        (Inr revised_text, w1) \<Rightarrow>
          (case revise_each gw feedback_raw rest w1 of
             (revised, w2) \<Rightarrow> ((key, revised_text) # revised, w2))
      | (Inl e, w1) \<Rightarrow>
          (case revise_each gw feedback_raw rest (log (LogReviseKept key e) w1) of
             (revised, w2) \<Rightarrow> ((key, text) # revised, w2)))"

definition revise_parts ::
  "gateway \<Rightarrow> (pystr \<times> pystr) list \<Rightarrow> pystr \<Rightarrow> world \<Rightarrow> (pystr \<times> pystr) list \<times> world" where
  "revise_parts gw parts feedback_raw w =
     (case revise_each gw feedback_raw parts (log LogReviseStart w) of
        (revised, w') \<Rightarrow> (revised, log LogReviseDone w'))"

text \<open>
  The feedback dict is built in three places (the two returns of \<open>verify\<close> and the
  forced one of \<open>run_build\<close>), always with \<open>raw\<close> and \<open>targets\<close>, with \<open>status\<close> and
  \<open>metrics\<close> in some; so it is a record with the latter two optional. \<open>targets\<close> is
  whatever the JSON held.
\<close>

record feedback =
  fb_status :: "status option"
  fb_raw :: pystr
  fb_targets :: pyval
  fb_metrics :: "(pyfloat \<times> int) option"

text \<open>\<open>for t in v\<close>: a list yields its items, a string its characters, a dict its keys;
  any other value is not iterable.\<close>

fun py_iter :: "pyval \<Rightarrow> exn + pyval list" where
  "py_iter (PList xs) = Inr xs"
| "py_iter (PStr s) = Inr (map (\<lambda>c. PStr [c]) s)"
| "py_iter (PDict kvs) = Inr (map (\<lambda>kv. PStr (fst kv)) kvs)"
| "py_iter v = Inl TypeError"

text \<open>
  \<open>Delegator.revise_selected_parts\<close>. \<open>scan_targets\<close> is the loop that fills
  \<open>target_keys\<close> and \<open>notes_map\<close>, \<open>select_each\<close> the loop over the sections.
\<close>

fun scan_targets ::
  "runtime \<Rightarrow> pyval list \<Rightarrow> pystr list \<Rightarrow> (pystr \<rightharpoonup> pystr) \<Rightarrow> pystr list \<times> (pystr \<rightharpoonup> pystr)" where
  "scan_targets rt [] target_keys notes_map = (target_keys, notes_map)"
| "scan_targets rt (PDict t # ts) target_keys notes_map =
     (let k = strip (py_str rt (py_or (py_get t (u ''key'') PNone)
                               (py_or (py_get t (u ''section'') PNone)
                               (py_or (py_get t (u ''name'') PNone) (PStr [])))))
      in if k = [] then scan_targets rt ts target_keys notes_map
         else let notes = strip (py_str rt (py_or (py_get t (u ''notes'') PNone) (PStr [])))
              in scan_targets rt ts (target_keys @ [k])
                   (if notes \<noteq> [] then notes_map(k \<mapsto> notes) else notes_map))"
| "scan_targets rt (PStr t # ts) target_keys notes_map =
     scan_targets rt ts (target_keys @ [t]) notes_map"
| "scan_targets rt (t # ts) target_keys notes_map = scan_targets rt ts target_keys notes_map"

definition extract_targets :: "runtime \<Rightarrow> feedback \<Rightarrow> exn + pystr list \<times> (pystr \<rightharpoonup> pystr)" where
  "extract_targets rt feedback =
     (case py_iter (py_or (fb_targets feedback) (PList [])) of
        Inl e \<Rightarrow> Inl e
      | Inr targets \<Rightarrow> Inr (scan_targets rt targets [] Map.empty))"

definition notes_for :: "(pystr \<rightharpoonup> pystr) \<Rightarrow> pystr \<Rightarrow> pystr" where
  "notes_for notes_map key = (case notes_map key of None \<Rightarrow> [] | Some notes \<Rightarrow> notes)"

fun select_each ::
  "gateway \<Rightarrow> pystr list \<Rightarrow> (pystr \<rightharpoonup> pystr) \<Rightarrow> pystr \<Rightarrow> (pystr \<times> pystr) list \<Rightarrow> world
     \<Rightarrow> (pystr \<times> pystr) list \<times> world" where
  "select_each gw target_keys notes_map raw [] w = ([], w)"
| "select_each gw target_keys notes_map raw ((key, text) # rest) w =
     (if key \<in> set target_keys then
        (case generate gw key (SelectedPrompt key raw (notes_for notes_map key) text) w of
           (Inr revised_text, w1) \<Rightarrow>
             (case select_each gw target_keys notes_map raw rest w1 of
                (revised, w2) \<Rightarrow> ((key, revised_text) # revised, w2))
         | (Inl e, w1) \<Rightarrow>
             (case select_each gw target_keys notes_map raw rest (log (LogSelectKept key e) w1) of
                (revised, w2) \<Rightarrow> ((key, text) # revised, w2)))
      else
        (case select_each gw target_keys notes_map raw rest w of
           (revised, w2) \<Rightarrow> ((key, text) # revised, w2)))"

definition revise_selected_parts ::
  "runtime \<Rightarrow> gateway \<Rightarrow> (pystr \<times> pystr) list \<Rightarrow> feedback \<Rightarrow> world
     \<Rightarrow> (exn + (pystr \<times> pystr) list) \<times> world" where
  "revise_selected_parts rt gw parts feedback w =
     (case extract_targets rt feedback of
        Inl e \<Rightarrow> (Inl e, log LogSelectStart w)
      | Inr (target_keys, notes_map) \<Rightarrow>
          if target_keys = [] then
            (case revise_parts gw parts (fb_raw feedback) (log LogSelectFallback (log LogSelectStart w)) of
               (revised, w') \<Rightarrow> (Inr revised, w'))
          else
            (case select_each gw target_keys notes_map (fb_raw feedback) parts (log LogSelectStart w) of
               (revised, w') \<Rightarrow> (Inr revised, log LogSelectDone w')))"

subsection \<open>Properties of revision\<close>

lemma asked_log [simp]: "asked (log l w) = asked w"
  by (simp add: log_def)

lemma generate_result: "fst (generate gw key p w) = gw (length (asked w)) (AskGenerate key p)"
  by (simp add: generate_def ask_def split: sum.splits)

lemma generate_asked: "asked (snd (generate gw key p w)) = asked w @ [AskGenerate key p]"
  by (simp add: generate_def ask_def split: sum.splits)

lemma generate_cases:
  obtains (raised) e w1 where "generate gw key p w = (Inl e, w1)"
      "gw (length (asked w)) (AskGenerate key p) = Inl e" "asked w1 = asked w @ [AskGenerate key p]"
  | (returned) t w1 where "generate gw key p w = (Inr t, w1)"
      "gw (length (asked w)) (AskGenerate key p) = Inr t" "asked w1 = asked w @ [AskGenerate key p]"
proof (cases "generate gw key p w")
  case (Pair r w1)
  have a: "asked w1 = asked w @ [AskGenerate key p]"
    using generate_asked [of gw key p w] Pair by simp
  have b: "gw (length (asked w)) (AskGenerate key p) = r"
    using generate_result [of gw key p w] Pair by simp
  show ?thesis
  proof (cases r)
    case (Inl e)
    have "generate gw key p w = (Inl e, w1)" using Pair Inl by simp
    moreover have "gw (length (asked w)) (AskGenerate key p) = Inl e" using b Inl by simp
    ultimately show ?thesis using a by (rule raised)
  next
    case (Inr t)
    have "generate gw key p w = (Inr t, w1)" using Pair Inr by simp
    moreover have "gw (length (asked w)) (AskGenerate key p) = Inr t" using b Inr by simp
    ultimately show ?thesis using a by (rule returned)
  qed
qed

lemma revise_each_keys: "map fst (fst (revise_each gw raw parts w)) = map fst parts"
proof (induction parts arbitrary: w)
  case Nil
  show ?case by simp
next
  case (Cons p parts)
  obtain k t where p: "p = (k, t)" by (cases p)
  show ?case
  proof (cases rule: generate_cases [of gw k "RevisePrompt k raw t" w])
    case (raised e w1)
    then show ?thesis using Cons.IH p by (simp add: case_prod_beta)
  next
    case (returned s w1)
    then show ?thesis using Cons.IH p by (simp add: case_prod_beta)
  qed
qed

lemma revise_each_asked:
  "asked (snd (revise_each gw raw parts w))
     = asked w @ map (\<lambda>(k, t). AskGenerate k (RevisePrompt k raw t)) parts"
proof (induction parts arbitrary: w)
  case Nil
  show ?case by simp
next
  case (Cons p parts)
  obtain k t where p: "p = (k, t)" by (cases p)
  show ?case
  proof (cases rule: generate_cases [of gw k "RevisePrompt k raw t" w])
    case (raised e w1)
    then show ?thesis
      using Cons.IH [of "log (LogReviseKept k e) w1"] p by (simp add: case_prod_beta)
  next
    case (returned s w1)
    then show ?thesis using Cons.IH [of w1] p by (simp add: case_prod_beta)
  qed
qed

lemma revise_each_kept:
  assumes "i < length parts"
    and "isl (gw (length (asked w) + i)
               (AskGenerate (fst (parts ! i)) (RevisePrompt (fst (parts ! i)) raw (snd (parts ! i)))))"
  shows "fst (revise_each gw raw parts w) ! i = parts ! i"
  using assms
proof (induction parts arbitrary: w i)
  case Nil
  then show ?case by simp
next
  case (Cons p parts)
  obtain k t where p: "p = (k, t)" by (cases p)
  show ?case
  proof (cases rule: generate_cases [of gw k "RevisePrompt k raw t" w])
    case (raised e w1)
    show ?thesis
    proof (cases i)
      case 0
      with raised p show ?thesis by (simp add: case_prod_beta)
    next
      case (Suc j)
      have "fst (revise_each gw raw parts (log (LogReviseKept k e) w1)) ! j = parts ! j"
        using Cons.prems Suc raised(3) by (intro Cons.IH) simp_all
      with raised p Suc show ?thesis by (simp add: case_prod_beta)
    qed
  next
    case (returned s w1)
    show ?thesis
    proof (cases i)
      case 0
      with Cons.prems returned p show ?thesis by simp
    next
      case (Suc j)
      have "fst (revise_each gw raw parts w1) ! j = parts ! j"
        using Cons.prems Suc returned(3) by (intro Cons.IH) simp_all
      with returned p Suc show ?thesis by (simp add: case_prod_beta)
    qed
  qed
qed

lemma select_each_keys:
  "map fst (fst (select_each gw tk nm raw parts w)) = map fst parts"
proof (induction parts arbitrary: w)
  case Nil
  show ?case by simp
next
  case (Cons p parts)
  obtain k t where p: "p = (k, t)" by (cases p)
  show ?case
  proof (cases rule: generate_cases [of gw k "SelectedPrompt k raw (notes_for nm k) t" w])
    case (raised e w1)
    then show ?thesis using Cons.IH p by (simp add: case_prod_beta)
  next
    case (returned s w1)
    then show ?thesis using Cons.IH p by (simp add: case_prod_beta)
  qed
qed

lemma select_each_asked:
  "asked (snd (select_each gw tk nm raw parts w))
     = asked w @ map (\<lambda>(k, t). AskGenerate k (SelectedPrompt k raw (notes_for nm k) t))
                     (filter (\<lambda>p. fst p \<in> set tk) parts)"
proof (induction parts arbitrary: w)
  case Nil
  show ?case by simp
next
  case (Cons p parts)
  obtain k t where p: "p = (k, t)" by (cases p)
  show ?case
  proof (cases rule: generate_cases [of gw k "SelectedPrompt k raw (notes_for nm k) t" w])
    case (raised e w1)
    then show ?thesis
      using Cons.IH [of "log (LogSelectKept k e) w1"] Cons.IH [of w] p
      by (simp add: case_prod_beta)
  next
    case (returned s w1)
    then show ?thesis using Cons.IH [of w1] Cons.IH [of w] p by (simp add: case_prod_beta)
  qed
qed

lemma select_each_untargeted:
  assumes "i < length parts" and "fst (parts ! i) \<notin> set tk"
  shows "fst (select_each gw tk nm raw parts w) ! i = parts ! i"
  using assms
proof (induction parts arbitrary: w i)
  case Nil
  then show ?case by simp
next
  case (Cons p parts)
  obtain k t where p: "p = (k, t)" by (cases p)
  show ?case
  proof (cases i)
    case 0
    with Cons.prems p show ?thesis by (simp add: case_prod_beta)
  next
    case (Suc j)
    have rest: "fst (select_each gw tk nm raw parts w') ! j = parts ! j" for w'
      using Cons.prems Suc by (intro Cons.IH) simp_all
    show ?thesis
    proof (cases rule: generate_cases [of gw k "SelectedPrompt k raw (notes_for nm k) t" w])
      case (raised e w1)
      then show ?thesis using rest p Suc by (simp add: case_prod_beta)
    next
      case (returned s w1)
      then show ?thesis using rest p Suc by (simp add: case_prod_beta)
    qed
  qed
qed

lemma select_each_kept:
  assumes "i < length parts"
    and "isl (gw (length (asked w) + length (filter (\<lambda>p. fst p \<in> set tk) (take i parts)))
               (AskGenerate (fst (parts ! i))
                  (SelectedPrompt (fst (parts ! i)) raw (notes_for nm (fst (parts ! i))) (snd (parts ! i)))))"
  shows "fst (select_each gw tk nm raw parts w) ! i = parts ! i"
  using assms
proof (induction parts arbitrary: w i)
  case Nil
  then show ?case by simp
next
  case (Cons p parts)
  obtain k t where p: "p = (k, t)" by (cases p)
  show ?case
  proof (cases rule: generate_cases [of gw k "SelectedPrompt k raw (notes_for nm k) t" w])
    case (raised e w1)
    show ?thesis
    proof (cases i)
      case 0
      with raised p show ?thesis by (simp add: case_prod_beta)
    next
      case (Suc j)
      have a: "fst (select_each gw tk nm raw parts (log (LogSelectKept k e) w1)) ! j = parts ! j"
        if "k \<in> set tk"
        using Cons.prems Suc raised(3) p that by (intro Cons.IH) simp_all
      have b: "fst (select_each gw tk nm raw parts w) ! j = parts ! j"
        if "k \<notin> set tk"
        using Cons.prems Suc p that by (intro Cons.IH) simp_all
      from a b raised p Suc show ?thesis by (simp add: case_prod_beta)
    qed
  next
    case (returned s w1)
    show ?thesis
    proof (cases i)
      case 0
      with Cons.prems returned p show ?thesis by (simp add: case_prod_beta)
    next
      case (Suc j)
      have a: "fst (select_each gw tk nm raw parts w1) ! j = parts ! j"
        if "k \<in> set tk"
        using Cons.prems Suc returned(3) p that by (intro Cons.IH) simp_all
      have b: "fst (select_each gw tk nm raw parts w) ! j = parts ! j"
        if "k \<notin> set tk"
        using Cons.prems Suc p that by (intro Cons.IH) simp_all
      from a b returned p Suc show ?thesis by (simp add: case_prod_beta)
    qed
  qed
qed

lemma select_each_none:
  assumes "set tk \<inter> fst ` set parts = {}"
  shows "select_each gw tk nm raw parts w = (parts, w)"
  using assms
proof (induction parts arbitrary: w)
  case Nil
  show ?case by simp
next
  case (Cons p parts)
  obtain k t where p: "p = (k, t)" by (cases p)
  from Cons.prems p have "k \<notin> set tk" and "set tk \<inter> fst ` set parts = {}" by auto
  with Cons.IH p show ?case by simp
qed

lemma revise_parts_keys: "map fst (fst (revise_parts gw parts raw w)) = map fst parts"
  by (simp add: revise_parts_def case_prod_beta revise_each_keys)

lemma revise_parts_length: "length (fst (revise_parts gw parts raw w)) = length parts"
  using revise_parts_keys [of gw parts raw w] by (metis length_map)

lemma revise_parts_asked:
  "asked (snd (revise_parts gw parts raw w))
     = asked w @ map (\<lambda>(k, t). AskGenerate k (RevisePrompt k raw t)) parts"
  by (simp add: revise_parts_def case_prod_beta revise_each_asked)

lemma revise_parts_kept:
  assumes "i < length parts"
    and "isl (gw (length (asked w) + i)
               (AskGenerate (fst (parts ! i)) (RevisePrompt (fst (parts ! i)) raw (snd (parts ! i)))))"
  shows "fst (revise_parts gw parts raw w) ! i = parts ! i"
  using assms revise_each_kept [of i parts gw "log LogReviseStart w" raw]
  by (simp add: revise_parts_def case_prod_beta)

lemma revise_selected_targeted:
  assumes "extract_targets rt fb = Inr (tk, nm)" and "tk \<noteq> []"
  shows "revise_selected_parts rt gw parts fb w =
           (Inr (fst (select_each gw tk nm (fb_raw fb) parts (log LogSelectStart w))),
            log LogSelectDone (snd (select_each gw tk nm (fb_raw fb) parts (log LogSelectStart w))))"
  using assms by (simp add: revise_selected_parts_def case_prod_beta)

lemma revise_selected_fallback:
  assumes "extract_targets rt fb = Inr ([], nm)"
  shows "revise_selected_parts rt gw parts fb w =
           (Inr (fst (revise_parts gw parts (fb_raw fb) (log LogSelectFallback (log LogSelectStart w)))),
            snd (revise_parts gw parts (fb_raw fb) (log LogSelectFallback (log LogSelectStart w))))"
  using assms by (simp add: revise_selected_parts_def case_prod_beta)

text \<open>
  C5. When the target keys extracted from the verdict are exactly \<open>{a}\<close>, targeted
  revision returns a list with the same identities in the same positions, and every
  section whose identity is not \<open>a\<close> is returned as it was, at its position.
\<close>

theorem targeted_revision_frame:
  assumes "extract_targets rt fb = Inr (tk, nm)" and "set tk = {a}"
  shows "\<exists>r w'. revise_selected_parts rt gw parts fb w = (Inr r, w')
           \<and> map fst r = map fst parts
           \<and> length r = length parts
           \<and> (\<forall>i<length parts. fst (parts ! i) \<noteq> a \<longrightarrow> r ! i = parts ! i)"
proof -
  let ?r = "fst (select_each gw tk nm (fb_raw fb) parts (log LogSelectStart w))"
  have ne: "tk \<noteq> []" using assms(2) by (cases tk) simp_all
  have keys: "map fst ?r = map fst parts" by (rule select_each_keys)
  then have len: "length ?r = length parts" by (metis length_map)
  have frame: "?r ! i = parts ! i" if "i < length parts" "fst (parts ! i) \<noteq> a" for i
  proof -
    from that(2) assms(2) have "fst (parts ! i) \<notin> set tk" by simp
    with that(1) show ?thesis by (rule select_each_untargeted)
  qed
  show ?thesis
  proof (intro exI conjI allI impI)
    show "revise_selected_parts rt gw parts fb w =
            (Inr ?r, log LogSelectDone (snd (select_each gw tk nm (fb_raw fb) parts (log LogSelectStart w))))"
      using assms(1) ne by (rule revise_selected_targeted)
    show "map fst ?r = map fst parts" by (rule keys)
    show "length ?r = length parts" by (rule len)
    fix i assume "i < length parts" "fst (parts ! i) \<noteq> a"
    then show "?r ! i = parts ! i" by (rule frame)
  qed
qed

text \<open>
  C6. A section whose regeneration call raises keeps its content, and no section is
  dropped. In \<open>revise_parts\<close> the call for the section at position \<open>i\<close> is the
  \<open>i\<close>-th request of the pass. In \<open>revise_selected_parts\<close> it is so too when no target
  key was extracted (the pass is then a full one); otherwise the request for section
  \<open>i\<close> comes after those for the targeted sections before it.
\<close>

theorem failed_regeneration_keeps_content:
  "length (fst (revise_parts gw parts raw w)) = length parts
   \<and> (\<forall>i<length parts.
         isl (gw (length (asked w) + i)
                (AskGenerate (fst (parts ! i)) (RevisePrompt (fst (parts ! i)) raw (snd (parts ! i)))))
         \<longrightarrow> fst (revise_parts gw parts raw w) ! i = parts ! i)
   \<and> (\<forall>tk nm. extract_targets rt fb = Inr (tk, nm) \<longrightarrow>
         (\<exists>r w'. revise_selected_parts rt gw parts fb w = (Inr r, w')
            \<and> length r = length parts
            \<and> (\<forall>i<length parts.
                  isl (gw (length (asked w)
                           + (if tk = [] then i
                              else length (filter (\<lambda>p. fst p \<in> set tk) (take i parts))))
                         (AskGenerate (fst (parts ! i))
                            (if tk = [] then RevisePrompt (fst (parts ! i)) (fb_raw fb) (snd (parts ! i))
                             else SelectedPrompt (fst (parts ! i)) (fb_raw fb)
                                    (notes_for nm (fst (parts ! i))) (snd (parts ! i)))))
                  \<longrightarrow> r ! i = parts ! i)))"
proof (intro conjI allI impI)
  show "length (fst (revise_parts gw parts raw w)) = length parts"
    by (rule revise_parts_length)
next
  fix i
  assume "i < length parts"
    and "isl (gw (length (asked w) + i)
                (AskGenerate (fst (parts ! i)) (RevisePrompt (fst (parts ! i)) raw (snd (parts ! i)))))"
  then show "fst (revise_parts gw parts raw w) ! i = parts ! i"
    by (rule revise_parts_kept)
next
  fix tk nm
  assume ex: "extract_targets rt fb = Inr (tk, nm)"
  let ?serial = "\<lambda>i. length (asked w)
                   + (if tk = [] then i else length (filter (\<lambda>p. fst p \<in> set tk) (take i parts)))"
  let ?req = "\<lambda>i. AskGenerate (fst (parts ! i))
                 (if tk = [] then RevisePrompt (fst (parts ! i)) (fb_raw fb) (snd (parts ! i))
                  else SelectedPrompt (fst (parts ! i)) (fb_raw fb)
                         (notes_for nm (fst (parts ! i))) (snd (parts ! i)))"
  show "\<exists>r w'. revise_selected_parts rt gw parts fb w = (Inr r, w')
          \<and> length r = length parts
          \<and> (\<forall>i<length parts. isl (gw (?serial i) (?req i)) \<longrightarrow> r ! i = parts ! i)"
  proof (cases "tk = []")
    case True
    let ?w = "log LogSelectFallback (log LogSelectStart w)"
    let ?r = "fst (revise_parts gw parts (fb_raw fb) ?w)"
    have run: "revise_selected_parts rt gw parts fb w = (Inr ?r, snd (revise_parts gw parts (fb_raw fb) ?w))"
      using ex True by (simp add: revise_selected_fallback)
    have len: "length ?r = length parts" by (rule revise_parts_length)
    have kept: "?r ! i = parts ! i" if "i < length parts" "isl (gw (?serial i) (?req i))" for i
      using that True revise_parts_kept [of i parts gw ?w "fb_raw fb"] by simp
    show ?thesis
    proof (intro exI conjI allI impI)
      show "revise_selected_parts rt gw parts fb w = (Inr ?r, snd (revise_parts gw parts (fb_raw fb) ?w))"
        by (rule run)
      show "length ?r = length parts" by (rule len)
      fix i assume "i < length parts" "isl (gw (?serial i) (?req i))"
      then show "?r ! i = parts ! i" by (rule kept)
    qed
  next
    case False
    let ?w = "log LogSelectStart w"
    let ?r = "fst (select_each gw tk nm (fb_raw fb) parts ?w)"
    have run: "revise_selected_parts rt gw parts fb w =
        (Inr ?r, log LogSelectDone (snd (select_each gw tk nm (fb_raw fb) parts ?w)))"
      using ex False by (rule revise_selected_targeted)
    have "map fst ?r = map fst parts" by (rule select_each_keys)
    then have len: "length ?r = length parts" by (metis length_map)
    have kept: "?r ! i = parts ! i" if "i < length parts" "isl (gw (?serial i) (?req i))" for i
      using that False select_each_kept [of i parts gw ?w tk "fb_raw fb" nm] by simp
    show ?thesis
    proof (intro exI conjI allI impI)
      show "revise_selected_parts rt gw parts fb w =
              (Inr ?r, log LogSelectDone (snd (select_each gw tk nm (fb_raw fb) parts ?w)))"
        by (rule run)
      show "length ?r = length parts" by (rule len)
      fix i assume "i < length parts" "isl (gw (?serial i) (?req i))"
      then show "?r ! i = parts ! i" by (rule kept)
    qed
  qed
qed

text \<open>
  C10 (amended). When at least one target key is extracted and none of the extracted
  keys is the identity of a section, targeted revision returns the sections as they
  are, makes no request and does not fall back to full revision.
\<close>

theorem unmatched_targets_change_nothing:
  assumes "extract_targets rt fb = Inr (tk, nm)"
    and "tk \<noteq> []"
    and "set tk \<inter> fst ` set parts = {}"
  shows "revise_selected_parts rt gw parts fb w = (Inr parts, log LogSelectDone (log LogSelectStart w))"
  using assms by (simp add: revise_selected_targeted select_each_none)

subsection \<open>Examples of revision\<close>

definition start :: world where
  "start = \<lparr>asked = [], logged = []\<rparr>"

definition example_gateway :: "(nat \<Rightarrow> pystr) \<Rightarrow> gateway" where
  "example_gateway verdicts n req =
     (case req of
        AskPlan \<Rightarrow> Inr []
      | AskGenerate k p \<Rightarrow> if k = u ''B'' then Inl (u ''timeout'') else Inr (u ''new'')
      | AskFormat title base \<Rightarrow> Inr base
      | AskVerify draft keys \<Rightarrow> Inr (verdicts n))"

definition example_feedback :: "pyval \<Rightarrow> feedback" where
  "example_feedback targets =
     \<lparr>fb_status = Some NeedsRevision, fb_raw = u ''fix'', fb_targets = targets, fb_metrics = None\<rparr>"

lemmas example_simps =
  revise_selected_parts_def revise_parts_def extract_targets_def generate_def ask_def log_def
  example_gateway_def example_feedback_def start_def notes_for_def py_get_def py_or_def
  strip_def isspace_def u_def Let_def

theorem targeted_revision_frame_witness:
  "fst (revise_selected_parts example_rt (example_gateway (\<lambda>n. []))
          [(u ''A'', u ''a''), (u ''B'', u ''b''), (u ''C'', u ''c'')]
          (example_feedback (PList [PDict [(u ''key'', PStr (u ''A'')), (u ''notes'', PStr (u ''cite''))]]))
          start)
     = Inr [(u ''A'', u ''new''), (u ''B'', u ''b''), (u ''C'', u ''c'')]"
proof -
  let ?fb = "example_feedback (PList [PDict [(u ''key'', PStr (u ''A'')), (u ''notes'', PStr (u ''cite''))]])"
  let ?parts = "[(u ''A'', u ''a''), (u ''B'', u ''b''), (u ''C'', u ''c'')]"
  have ex: "extract_targets example_rt ?fb = Inr ([u ''A''], [u ''A'' \<mapsto> u ''cite''])"
    by (simp add: example_simps)
  have one: "set [u ''A''] = {u ''A''}" by simp
  from targeted_revision_frame [OF ex one, of "example_gateway (\<lambda>n. [])" ?parts start]
  obtain r w' where run: "revise_selected_parts example_rt (example_gateway (\<lambda>n. [])) ?parts ?fb start = (Inr r, w')"
    and len: "length r = length ?parts"
    and frame: "\<forall>i<length ?parts. fst (?parts ! i) \<noteq> u ''A'' \<longrightarrow> r ! i = ?parts ! i"
    by blast
  have b: "r ! 1 = (u ''B'', u ''b'')" using frame [rule_format, of 1] by (simp add: u_def)
  have c: "r ! 2 = (u ''C'', u ''c'')" using frame [rule_format, of 2] by (simp add: u_def)
  have "fst (revise_selected_parts example_rt (example_gateway (\<lambda>n. [])) ?parts ?fb start)
          = Inr [(u ''A'', u ''new''), (u ''B'', u ''b''), (u ''C'', u ''c'')]"
    by (simp add: example_simps)
  with run b c show ?thesis by simp
qed

theorem failed_regeneration_keeps_content_witness:
  "fst (revise_parts (example_gateway (\<lambda>n. [])) [(u ''A'', u ''a''), (u ''B'', u ''b'')] (u ''fix'') start)
     = [(u ''A'', u ''new''), (u ''B'', u ''b'')]
   \<and> fst (revise_parts (example_gateway (\<lambda>n. [])) [(u ''A'', u ''a''), (u ''B'', u ''b'')] (u ''fix'') start) ! 1
     = [(u ''A'', u ''a''), (u ''B'', u ''b'')] ! 1"
proof -
  let ?gw = "example_gateway (\<lambda>n. [])"
  let ?parts = "[(u ''A'', u ''a''), (u ''B'', u ''b'')]"
  have raised: "isl (?gw (length (asked start) + 1)
      (AskGenerate (fst (?parts ! 1)) (RevisePrompt (fst (?parts ! 1)) (u ''fix'') (snd (?parts ! 1)))))"
    by (simp add: example_gateway_def)
  have "(1::nat) < length ?parts" by simp
  with failed_regeneration_keeps_content [of ?gw ?parts "u ''fix''" start example_rt "example_feedback PNone"]
    raised
  have kept: "fst (revise_parts ?gw ?parts (u ''fix'') start) ! 1 = ?parts ! 1"
    by blast
  have "fst (revise_parts ?gw ?parts (u ''fix'') start) = [(u ''A'', u ''new''), (u ''B'', u ''b'')]"
    by (simp add: example_simps)
  with kept show ?thesis by simp
qed

text \<open>
  C10 (as the claim states it, refuted). The targets list \<open>[{"notes": "tighten"}]\<close> is
  not empty and no key is extracted from it, so no extracted key equals a section's
  identity; the source then falls back to full revision and the section changes.
\<close>

theorem missing_target_key_falls_back:
  "truthy (fb_targets (example_feedback (PList [PDict [(u ''notes'', PStr (u ''tighten''))]])))
   \<and> map_sum id fst (extract_targets example_rt
         (example_feedback (PList [PDict [(u ''notes'', PStr (u ''tighten''))]]))) = Inr []
   \<and> fst (revise_selected_parts example_rt (example_gateway (\<lambda>n. [])) [(u ''A'', u ''a'')]
           (example_feedback (PList [PDict [(u ''notes'', PStr (u ''tighten''))]])) start)
       = Inr [(u ''A'', u ''new'')]"
  by (simp add: example_simps)

theorem unmatched_targets_change_nothing_witness:
  "revise_selected_parts example_rt (example_gateway (\<lambda>n. []))
      [(u ''A'', u ''a''), (u ''B'', u ''b'')]
      (example_feedback (PList [PDict [(u ''key'', PStr (u ''Z''))]])) start
     = (Inr [(u ''A'', u ''a''), (u ''B'', u ''b'')],
        \<lparr>asked = [], logged = [LogSelectStart, LogSelectDone]\<rparr>)"
proof -
  let ?fb = "example_feedback (PList [PDict [(u ''key'', PStr (u ''Z''))]])"
  let ?parts = "[(u ''A'', u ''a''), (u ''B'', u ''b'')]"
  have ex: "extract_targets example_rt ?fb = Inr ([u ''Z''], Map.empty)"
    by (simp add: example_simps)
  have ne: "[u ''Z''] \<noteq> []" by simp
  have none: "set [u ''Z''] \<inter> fst ` set ?parts = {}" by (simp add: u_def)
  show ?thesis
    using unmatched_targets_change_nothing [OF ex ne none, of "example_gateway (\<lambda>n. [])" start]
    by (simp add: log_def start_def)
qed


section \<open>Verification\<close>

text \<open>
  \<open>FeedbackFactCheckerAgent.verify\<close>. The three Korean literals of the source that flow
  through the data are the approval token of the keyword fallback, the strict-rewrite
  directive and the note of a forced target, below by their code points.
\<close>

definition approval_token :: pystr where
  "approval_token = [49849, 51064]"

definition strict_msg :: pystr where
  "strict_msg = u ''STRICT_REWRITE: '' @
     [50896, 47928, 32, 51649, 51217, 32, 44540, 44144, 40, 54168, 51060, 51648, 47, 51649,
      51217, 32, 51064, 50857, 41, 32, 50630, 45716, 32, 45236, 50857, 51008, 32, 47784,
      46160, 32, 51228, 44144, 47, 48708, 50892, 46168, 32, 44163, 46, 32, 52628, 47200, 47,
      50808, 49341, 32, 44552, 51648, 46, 32, 48520, 54869, 49892, 32, 48512, 48516, 51008,
      32, 39, 54869, 51064, 32, 54596, 50836, 39, 47196, 32, 54364, 49884, 54616, 44256, 32,
      51656, 47928, 32, 51228, 49884, 46]"

definition forced_notes :: pystr where
  "forced_notes = [52824, 47749, 51201, 32, 54872, 44033, 58, 32, 44540, 44144, 32, 51080,
      45716, 32, 45236, 50857, 47564, 32, 50976, 51648, 47, 48373, 50896]"

text \<open>\<open>MarkdownFormatterAgent.format\<close> through \<open>Delegator.format_markdown\<close>.\<close>

definition format_markdown ::
  "gateway \<Rightarrow> pystr \<Rightarrow> (pystr \<times> pystr) list \<Rightarrow> world \<Rightarrow> (exn + pystr) \<times> world" where
  "format_markdown gw title parts w =
     (case ask gw (AskFormat title (md_join title parts)) (log LogFormatStart w) of
        (Inl e, w') \<Rightarrow> (Inl (GatewayError e), w')
      | (Inr text, w') \<Rightarrow> (Inr text, log LogFormatDone w'))"

text \<open>
  The targets inferred from \<open>reasons\<close> when the payload names none: for each section
  key the first reason that is a string containing it. The inner \<open>for\<close> is entered only
  when there is a section key, and raises when \<open>reasons\<close> is not iterable.
\<close>

definition reasons_iter :: "pyval \<Rightarrow> exn + pyval list" where
  "reasons_iter reasons = (case reasons of PStr s \<Rightarrow> Inr [PStr s] | _ \<Rightarrow> py_iter reasons)"

fun first_reason :: "pystr \<Rightarrow> pyval list \<Rightarrow> pystr option" where
  "first_reason sk [] = None"
| "first_reason sk (PStr r # rs) = (if py_in sk r then Some r else first_reason sk rs)"
| "first_reason sk (r # rs) = first_reason sk rs"

definition match_reasons :: "pystr list \<Rightarrow> pyval \<Rightarrow> exn + pyval" where
  "match_reasons section_keys reasons =
     (if section_keys = [] then Inr (PList [])
      else case reasons_iter reasons of
             Inl e \<Rightarrow> Inl e
           | Inr rs \<Rightarrow>
               Inr (PList (concat (map (\<lambda>sk. case first_reason sk rs of
                                               None \<Rightarrow> []
                                             | Some r \<Rightarrow> [PDict [(u ''key'', PStr sk), (u ''notes'', PStr r)]])
                                       section_keys))))"

text \<open>
  The keyword fallback: \<open>abort\<close>, \<open>pass\<close> and \<open>ok\<close> are looked for in the lower-cased
  text, the approval token in the text itself.
\<close>

definition fallback_status :: "runtime \<Rightarrow> pystr \<Rightarrow> status" where
  "fallback_status rt text =
     (let lower = rt_lower rt text
      in if py_in (u ''abort'') lower then Abort
         else if py_in (u ''pass'') lower \<or> py_in approval_token text \<or> py_in (u ''ok'') lower then Ok
         else NeedsRevision)"

text \<open>
  An exception of \<open>ask\<close> leaves \<open>verify\<close>. \<open>json.loads\<close> raising is the fallback;
  a parsed value that is not a dict has no \<open>get\<close> (\<open>AttributeError\<close>), and what
  \<open>_decide\<close> or the iteration over \<open>reasons\<close> raises leaves \<open>verify\<close> too.
\<close>

definition verify ::
  "runtime \<Rightarrow> gateway \<Rightarrow> pystr \<Rightarrow> pystr list \<Rightarrow> world \<Rightarrow> (exn + feedback) \<times> world" where
  "verify rt gw draft_md section_keys w =
     (case ask gw (AskVerify draft_md section_keys) (log LogVerifyStart w) of
        (Inl e, w1) \<Rightarrow> (Inl (GatewayError e), w1)
      | (Inr text, w1) \<Rightarrow>
          (case rt_json_loads rt text of
             None \<Rightarrow>
               (Inr \<lparr>fb_status = Some (fallback_status rt text), fb_raw = text,
                     fb_targets = PList [], fb_metrics = None\<rparr>,
                log (case fallback_status rt text of
                       Abort \<Rightarrow> LogFallbackAbort | Ok \<Rightarrow> LogFallbackOk
                     | NeedsRevision \<Rightarrow> LogFallbackRevise) w1)
           | Some (PDict payload) \<Rightarrow>
               (case decide rt payload of
                  Inl e \<Rightarrow> (Inl e, w1)
                | Inr decision \<Rightarrow>
                    (let targets = py_or (py_get payload (u ''targets'') PNone) (PList [])
                     in case (if truthy targets then Inr targets
                              else match_reasons section_keys
                                     (py_or (py_get payload (u ''reasons'') PNone) (PList []))) of
                          Inl e \<Rightarrow> (Inl e, w1)
                        | Inr targets \<Rightarrow>
                            (Inr \<lparr>fb_status = Some (status decision), fb_raw = text,
                                  fb_targets = targets,
                                  fb_metrics = Some (overlap_ratio decision, hallucination_count decision)\<rparr>,
                             log (case status decision of
                                    Abort \<Rightarrow> LogVerdictAbort | NeedsRevision \<Rightarrow> LogVerdictRevise
                                  | Ok \<Rightarrow> LogVerdictOk) w1)))
           | Some other \<Rightarrow> (Inl AttributeError, w1)))"



section \<open>The feedback loop of the build\<close>

text \<open>
  The \<open>while True\<close> loop of \<open>Coordinator.run_build\<close>. \<open>loop_body\<close> is one iteration:
  it raises, breaks with the draft, or goes round again with the revised sections, the
  new draft and the incremented counter. \<open>merge\<close> is the \<open>if self.formatting == "none"\<close>
  statement, \<open>revise\<close> the \<open>if feedback.get("targets")\<close> statement, and
  \<open>forced_feedback\<close> the dict built on an abort verdict.
\<close>

datatype formatting = FormatNone | FormatLight

record config =
  cfg_title :: pystr
  cfg_max_feedback_loops :: nat
  cfg_formatting :: formatting

definition merge ::
  "gateway \<Rightarrow> config \<Rightarrow> (pystr \<times> pystr) list \<Rightarrow> world \<Rightarrow> (exn + pystr) \<times> world" where
  "merge gw cfg parts w =
     (if cfg_formatting cfg = FormatNone then (Inr (md_join (cfg_title cfg) parts), w)
      else format_markdown gw (cfg_title cfg) parts w)"

definition forced_feedback :: "feedback \<Rightarrow> (pystr \<times> pystr) list \<Rightarrow> feedback" where
  "forced_feedback verdict parts =
     \<lparr>fb_status = None,
      fb_raw = fb_raw verdict @ u ''\<newline>'' @ strict_msg,
      fb_targets = PList (map (\<lambda>(k, t). PDict [(u ''key'', PStr k), (u ''notes'', PStr forced_notes)]) parts),
      fb_metrics = None\<rparr>"

definition revise ::
  "runtime \<Rightarrow> gateway \<Rightarrow> (pystr \<times> pystr) list \<Rightarrow> feedback \<Rightarrow> world
     \<Rightarrow> (exn + (pystr \<times> pystr) list) \<times> world" where
  "revise rt gw parts feedback w =
     (if truthy (fb_targets feedback) then revise_selected_parts rt gw parts feedback w
      else (case revise_parts gw parts (fb_raw feedback) w of (revised, w') \<Rightarrow> (Inr revised, w')))"

datatype step =
    Raise exn
  | Break pystr "(pystr \<times> pystr) list" nat
  | Again "(pystr \<times> pystr) list" pystr nat

definition loop_body ::
  "runtime \<Rightarrow> gateway \<Rightarrow> config \<Rightarrow> (pystr \<times> pystr) list \<Rightarrow> pystr \<Rightarrow> nat \<Rightarrow> world \<Rightarrow> step \<times> world" where
  "loop_body rt gw cfg parts md loops w =
     (case verify rt gw md (map fst parts) w of
        (Inl e, w1) \<Rightarrow> (Raise e, w1)
      | (Inr verdict, w1) \<Rightarrow>
          (let (feedback, w2) =
                 (if fb_status verdict = Some Abort
                  then (forced_feedback verdict parts, log LogAbortRewrite w1)
                  else (verdict, w1))
           in if fb_status feedback = Some Ok then (Break md parts loops, log LogApproved w2)
              else
                let loops' = loops + 1;
                    w3 = log (LogLoop loops' (cfg_max_feedback_loops cfg)) w2
                in if loops' > cfg_max_feedback_loops cfg
                   then (Break md parts loops', log LogExceeded w3)
                   else (case revise rt gw parts feedback w3 of
                           (Inl e, w4) \<Rightarrow> (Raise e, w4)
                         | (Inr parts', w4) \<Rightarrow>
                             (case merge gw cfg parts' w4 of
                                (Inl e, w5) \<Rightarrow> (Raise e, w5)
                              | (Inr md', w5) \<Rightarrow> (Again parts' md' loops', w5)))))"

text \<open>
  The loop goes round again only after the counter, incremented, is within the budget;
  this is the measure of its termination, so \<open>run_build_loop\<close> is a total function.
\<close>

lemma loop_body_again:
  assumes "loop_body rt gw cfg parts md loops w = (Again parts' md' loops', w')"
  shows "loops' = loops + 1 \<and> loops' \<le> cfg_max_feedback_loops cfg"
  using assms
  by (auto simp: loop_body_def Let_def split: prod.splits sum.splits if_splits)

function run_build_loop ::
  "runtime \<Rightarrow> gateway \<Rightarrow> config \<Rightarrow> (pystr \<times> pystr) list \<Rightarrow> pystr \<Rightarrow> nat \<Rightarrow> world
     \<Rightarrow> (exn + pystr \<times> (pystr \<times> pystr) list \<times> nat) \<times> world" where
  "run_build_loop rt gw cfg parts md loops w =
     (case loop_body rt gw cfg parts md loops w of
        (Raise e, w') \<Rightarrow> (Inl e, w')
      | (Break md' parts' loops', w') \<Rightarrow> (Inr (md', parts', loops'), w')
      | (Again parts' md' loops', w') \<Rightarrow> run_build_loop rt gw cfg parts' md' loops' w')"
  by pat_completeness auto
termination
proof (relation "measure (\<lambda>(rt, gw, cfg, parts, md, loops, w). cfg_max_feedback_loops cfg + 1 - loops)")
  show "wf (measure (\<lambda>(rt, gw, cfg, parts, md, loops, w). cfg_max_feedback_loops cfg + 1 - loops))"
    by simp
next
  fix rt gw cfg parts md loops w x1 x2 y1 y2 y3
  assume "(x1, x2) = loop_body rt gw cfg parts md loops w" and "x1 = Again y1 y2 y3"
  then have "loop_body rt gw cfg parts md loops w = (Again y1 y2 y3, x2)" by simp
  from loop_body_again [OF this]
  show "((rt, gw, cfg, y1, y2, y3, x2), rt, gw, cfg, parts, md, loops, w)
          \<in> measure (\<lambda>(rt, gw, cfg, parts, md, loops, w). cfg_max_feedback_loops cfg + 1 - loops)"
    by simp arith
qed

subsection \<open>Properties of verification and of the loop\<close>

declare run_build_loop.simps [simp del]

lemma run_again:
  "loop_body rt gw cfg parts md loops w = (Again parts' md' loops', w') \<Longrightarrow>
   run_build_loop rt gw cfg parts md loops w = run_build_loop rt gw cfg parts' md' loops' w'"
  by (subst run_build_loop.simps) simp

lemma run_break:
  "loop_body rt gw cfg parts md loops w = (Break md' parts' loops', w') \<Longrightarrow>
   run_build_loop rt gw cfg parts md loops w = (Inr (md', parts', loops'), w')"
  by (subst run_build_loop.simps) simp

lemma run_raise:
  "loop_body rt gw cfg parts md loops w = (Raise e, w') \<Longrightarrow>
   run_build_loop rt gw cfg parts md loops w = (Inl e, w')"
  by (subst run_build_loop.simps) simp

text \<open>
  A revision pass that completes logs its completion line once, whichever of the two
  revision methods ran; the completed passes of a world are counted by these lines.
\<close>

definition pass_done :: "logline \<Rightarrow> bool" where
  "pass_done l = (l = LogReviseDone \<or> l = LogSelectDone)"

definition revision_passes :: "world \<Rightarrow> nat" where
  "revision_passes w = length (filter pass_done (logged w))"

lemma passes_log:
  "revision_passes (log l w) = revision_passes w + (if pass_done l then 1 else 0)"
  by (simp add: revision_passes_def log_def)

lemma passes_ask: "revision_passes (snd (ask gw req w)) = revision_passes w"
  by (simp add: revision_passes_def ask_def)

lemma passes_generate: "revision_passes (snd (generate gw k p w)) = revision_passes w"
  by (simp add: generate_def ask_def log_def revision_passes_def pass_done_def split: sum.splits)

lemma passes_revise_each: "revision_passes (snd (revise_each gw raw parts w)) = revision_passes w"
proof (induction parts arbitrary: w)
  case Nil
  show ?case by simp
next
  case (Cons p parts)
  obtain k t where p: "p = (k, t)" by (cases p)
  have g: "revision_passes (snd (generate gw k (RevisePrompt k raw t) w)) = revision_passes w"
    by (rule passes_generate)
  show ?case
  proof (cases "generate gw k (RevisePrompt k raw t) w")
    case (Pair r w1)
    with g have w1: "revision_passes w1 = revision_passes w" by simp
    show ?thesis
    proof (cases r)
      case (Inl e)
      with Pair p w1 Cons.IH [of "log (LogReviseKept k e) w1"] show ?thesis
        by (simp add: case_prod_beta passes_log pass_done_def)
    next
      case (Inr x)
      with Pair p w1 Cons.IH [of w1] show ?thesis by (simp add: case_prod_beta)
    qed
  qed
qed

lemma passes_select_each:
  "revision_passes (snd (select_each gw tk nm raw parts w)) = revision_passes w"
proof (induction parts arbitrary: w)
  case Nil
  show ?case by simp
next
  case (Cons p parts)
  obtain k t where p: "p = (k, t)" by (cases p)
  have g: "revision_passes (snd (generate gw k (SelectedPrompt k raw (notes_for nm k) t) w)) = revision_passes w"
    by (rule passes_generate)
  show ?case
  proof (cases "generate gw k (SelectedPrompt k raw (notes_for nm k) t) w")
    case (Pair r w1)
    with g have w1: "revision_passes w1 = revision_passes w" by simp
    show ?thesis
    proof (cases r)
      case (Inl e)
      with Pair p w1 Cons.IH [of "log (LogSelectKept k e) w1"] Cons.IH [of w] show ?thesis
        by (simp add: case_prod_beta passes_log pass_done_def)
    next
      case (Inr x)
      with Pair p w1 Cons.IH [of w1] Cons.IH [of w] show ?thesis by (simp add: case_prod_beta)
    qed
  qed
qed

lemma passes_revise_parts:
  "revision_passes (snd (revise_parts gw parts raw w)) = revision_passes w + 1"
  by (simp add: revise_parts_def case_prod_beta passes_log passes_revise_each pass_done_def)

lemma passes_revise_selected:
  "revision_passes (snd (revise_selected_parts rt gw parts fb w))
     = revision_passes w + (if isl (fst (revise_selected_parts rt gw parts fb w)) then 0 else 1)"
  by (simp add: revise_selected_parts_def case_prod_beta passes_log passes_revise_parts
      passes_select_each pass_done_def split: sum.splits)

lemma passes_revise:
  "revision_passes (snd (revise rt gw parts fb w))
     = revision_passes w + (if isl (fst (revise rt gw parts fb w)) then 0 else 1)"
  by (simp add: revise_def case_prod_beta passes_revise_parts passes_revise_selected)

lemma passes_merge: "revision_passes (snd (merge gw cfg parts w)) = revision_passes w"
  by (simp add: merge_def format_markdown_def ask_def log_def revision_passes_def pass_done_def
      split: sum.splits)

lemma passes_verify: "revision_passes (snd (verify rt gw md ks w)) = revision_passes w"
  by (simp add: verify_def ask_def log_def revision_passes_def pass_done_def Let_def
      split: sum.splits option.splits pyval.splits status.splits)

lemma asked_verify: "asked (snd (verify rt gw md ks w)) = asked w @ [AskVerify md ks]"
  by (simp add: verify_def ask_def Let_def
      split: sum.splits option.splits pyval.splits)

lemma loop_body_passes:
  "revision_passes (snd (loop_body rt gw cfg parts md loops w))
     \<le> revision_passes w + (if loops < cfg_max_feedback_loops cfg then 1 else 0)"
  by (simp add: loop_body_def Let_def case_prod_beta passes_log passes_verify passes_revise
      passes_merge pass_done_def split: sum.splits)

lemma run_passes_bound:
  "revision_passes (snd (run_build_loop rt gw cfg parts md loops w))
     \<le> revision_passes w + (cfg_max_feedback_loops cfg - loops)"
proof (induction rt gw cfg parts md loops w rule: run_build_loop.induct)
  case (1 rt gw cfg parts md loops w)
  obtain s w' where lb: "loop_body rt gw cfg parts md loops w = (s, w')"
    by (cases "loop_body rt gw cfg parts md loops w")
  have step: "revision_passes w' \<le> revision_passes w + (if loops < cfg_max_feedback_loops cfg then 1 else 0)"
    using loop_body_passes [of rt gw cfg parts md loops w] lb by simp
  show ?case
  proof (cases s)
    case (Raise e)
    with lb have "run_build_loop rt gw cfg parts md loops w = (Inl e, w')"
      by (simp add: run_raise)
    with step show ?thesis by (simp split: if_splits)
  next
    case (Break md' parts' loops')
    with lb have "run_build_loop rt gw cfg parts md loops w = (Inr (md', parts', loops'), w')"
      by (simp add: run_break)
    with step show ?thesis by (simp split: if_splits)
  next
    case (Again parts' md' loops')
    with lb have again: "loop_body rt gw cfg parts md loops w = (Again parts' md' loops', w')"
      by simp
    from loop_body_again [OF again] have l: "loops' = loops + 1" "loops' \<le> cfg_max_feedback_loops cfg"
      by simp_all
    have "revision_passes (snd (run_build_loop rt gw cfg parts' md' loops' w'))
            \<le> revision_passes w' + (cfg_max_feedback_loops cfg - loops')"
      using again Again by (intro "1.IH") simp_all
    moreover have "run_build_loop rt gw cfg parts md loops w = run_build_loop rt gw cfg parts' md' loops' w'"
      using again by (rule run_again)
    ultimately show ?thesis using step l by (simp split: if_splits)
  qed
qed

lemma loop_body_exhausted:
  assumes "fst (verify rt gw md (map fst parts) w) = Inr verdict"
    and "fb_status verdict \<noteq> Some Ok"
    and "cfg_max_feedback_loops cfg \<le> loops"
  shows "fst (loop_body rt gw cfg parts md loops w) = Break md parts (loops + 1)"
    and "asked (snd (loop_body rt gw cfg parts md loops w)) = asked w @ [AskVerify md (map fst parts)]"
    and "revision_passes (snd (loop_body rt gw cfg parts md loops w)) = revision_passes w"
  using assms asked_verify [of rt gw md "map fst parts" w] passes_verify [of rt gw md "map fst parts" w]
  by (simp_all add: loop_body_def Let_def case_prod_beta forced_feedback_def passes_log pass_done_def)

text \<open>
  C7. The loop is a total function (its termination is proved above), and started with
  the counter at 0 it completes at most \<open>max_feedback_loops\<close> revision passes. With a
  budget of 0, a first verdict that is not \<open>ok\<close> ends the loop with the draft and the
  sections as they were and the counter at 1: the verification was made, it is the only
  request, and no revision pass ran.
\<close>

theorem feedback_loop_bounded:
  "revision_passes (snd (run_build_loop rt gw cfg parts md 0 w))
     \<le> revision_passes w + cfg_max_feedback_loops cfg
   \<and> (cfg_max_feedback_loops cfg = 0 \<longrightarrow>
        (\<forall>verdict. fst (verify rt gw md (map fst parts) w) = Inr verdict \<longrightarrow>
           fb_status verdict \<noteq> Some Ok \<longrightarrow>
             fst (run_build_loop rt gw cfg parts md 0 w) = Inr (md, parts, 1)
           \<and> asked (snd (run_build_loop rt gw cfg parts md 0 w)) = asked w @ [AskVerify md (map fst parts)]
           \<and> revision_passes (snd (run_build_loop rt gw cfg parts md 0 w)) = revision_passes w))"
proof (intro conjI impI allI)
  show "revision_passes (snd (run_build_loop rt gw cfg parts md 0 w))
          \<le> revision_passes w + cfg_max_feedback_loops cfg"
    using run_passes_bound [of rt gw cfg parts md 0 w] by simp
next
  fix verdict
  assume zero: "cfg_max_feedback_loops cfg = 0"
    and v: "fst (verify rt gw md (map fst parts) w) = Inr verdict"
    and no: "fb_status verdict \<noteq> Some Ok"
  from zero have le: "cfg_max_feedback_loops cfg \<le> 0" by simp
  let ?w = "snd (loop_body rt gw cfg parts md 0 w)"
  have "loop_body rt gw cfg parts md 0 w = (Break md parts 1, ?w)"
    using loop_body_exhausted(1) [OF v no le] by (simp add: prod_eq_iff)
  then have run: "run_build_loop rt gw cfg parts md 0 w = (Inr (md, parts, 1), ?w)"
    by (rule run_break)
  show "fst (run_build_loop rt gw cfg parts md 0 w) = Inr (md, parts, 1)"
    using run by simp
  show "asked (snd (run_build_loop rt gw cfg parts md 0 w)) = asked w @ [AskVerify md (map fst parts)]"
    using run loop_body_exhausted(2) [OF v no le] by simp
  show "revision_passes (snd (run_build_loop rt gw cfg parts md 0 w)) = revision_passes w"
    using run loop_body_exhausted(3) [OF v no le] by simp
qed

text \<open>
  A section key is clean when it is not empty and has no white space at its ends. The
  keys of a build are clean, see the last section.
\<close>

definition clean_key :: "pystr \<Rightarrow> bool" where
  "clean_key k = (k \<noteq> [] \<and> strip k = k)"

definition forced_target :: "pystr \<times> pystr \<Rightarrow> pyval" where
  "forced_target p = (case p of (k, t) \<Rightarrow> PDict [(u ''key'', PStr k), (u ''notes'', PStr forced_notes)])"

lemma strip_forced_notes: "strip forced_notes = forced_notes" "forced_notes \<noteq> []"
  by (simp_all add: strip_def forced_notes_def isspace_def)

lemma scan_forced_target:
  assumes "clean_key k"
  shows "scan_targets rt (forced_target (k, t) # ts) acc nm
           = scan_targets rt ts (acc @ [k]) (nm(k \<mapsto> forced_notes))"
proof -
  have "py_get [(u ''key'', PStr k), (u ''notes'', PStr forced_notes)] (u ''key'') PNone = PStr k"
    by (simp add: py_get_def)
  moreover have "py_get [(u ''key'', PStr k), (u ''notes'', PStr forced_notes)] (u ''notes'') PNone
      = PStr forced_notes"
    by (simp add: py_get_def u_def)
  ultimately show ?thesis
    using assms strip_forced_notes
    by (simp add: forced_target_def clean_key_def py_or_def Let_def)
qed

lemma scan_forced_targets:
  assumes "\<forall>k\<in>set (map fst parts). clean_key k"
  shows "scan_targets rt (map forced_target parts) acc nm
           = (acc @ map fst parts,
              (\<lambda>k. if k \<in> fst ` set parts then Some forced_notes else nm k))"
  using assms
proof (induction parts arbitrary: acc nm)
  case Nil
  show ?case by simp
next
  case (Cons p parts)
  obtain k t where p: "p = (k, t)" by (cases p)
  from Cons.prems p have k: "clean_key k" and rest: "\<forall>k\<in>set (map fst parts). clean_key k"
    by simp_all
  have "scan_targets rt (map forced_target (p # parts)) acc nm
          = scan_targets rt (map forced_target parts) (acc @ [k]) (nm(k \<mapsto> forced_notes))"
    using scan_forced_target [OF k] p by simp
  also have "\<dots> = ((acc @ [k]) @ map fst parts,
      (\<lambda>x. if x \<in> fst ` set parts then Some forced_notes else (nm(k \<mapsto> forced_notes)) x))"
    using rest by (rule Cons.IH)
  also have "\<dots> = (acc @ map fst (p # parts),
      (\<lambda>x. if x \<in> fst ` set (p # parts) then Some forced_notes else nm x))"
    using p by (auto simp: fun_eq_iff)
  finally show ?case .
qed

lemma forced_feedback_targets:
  "fb_targets (forced_feedback verdict parts) = PList (map forced_target parts)"
  by (simp add: forced_feedback_def forced_target_def fun_eq_iff case_prod_beta)

lemma extract_forced:
  assumes "\<forall>k\<in>set (map fst parts). clean_key k"
  shows "extract_targets rt (forced_feedback verdict parts)
           = Inr (map fst parts, (\<lambda>k. if k \<in> fst ` set parts then Some forced_notes else None))"
proof -
  have "py_iter (py_or (PList (map forced_target parts)) (PList [])) = Inr (map forced_target parts)"
    by (simp add: py_or_def)
  then show ?thesis
    using scan_forced_targets [OF assms, of rt "[]" Map.empty]
    by (simp add: extract_targets_def forced_feedback_targets)
qed

lemma revise_forced:
  assumes "\<forall>k\<in>set (map fst parts). clean_key k"
  shows "\<exists>parts' w'. revise rt gw parts (forced_feedback verdict parts) w = (Inr parts', w')
           \<and> map fst parts' = map fst parts
           \<and> asked w' = asked w @ map (\<lambda>(k, t). AskGenerate k
                 (SelectedPrompt k (fb_raw verdict @ u ''\<newline>'' @ strict_msg) forced_notes t)) parts"
proof (cases "parts = []")
  case True
  then show ?thesis
    by (simp add: revise_def forced_feedback_targets revise_parts_def)
next
  case False
  let ?fb = "forced_feedback verdict parts"
  let ?nm = "\<lambda>k. if k \<in> fst ` set parts then Some forced_notes else None"
  let ?sel = "select_each gw (map fst parts) ?nm (fb_raw ?fb) parts (log LogSelectStart w)"
  have raw: "fb_raw ?fb = fb_raw verdict @ u ''\<newline>'' @ strict_msg"
    by (simp add: forced_feedback_def)
  have ex: "extract_targets rt ?fb = Inr (map fst parts, ?nm)"
    using assms by (rule extract_forced)
  have ne: "map fst parts \<noteq> []" using False by simp
  have run: "revise rt gw parts ?fb w = (Inr (fst ?sel), log LogSelectDone (snd ?sel))"
    using False revise_selected_targeted [OF ex ne, of gw parts w]
    by (simp add: revise_def forced_feedback_targets)
  have keys: "map fst (fst ?sel) = map fst parts" by (rule select_each_keys)
  have all: "filter (\<lambda>p. fst p \<in> set (map fst parts)) parts = parts"
    by (simp add: filter_id_conv)
  have "asked (snd ?sel) = asked w @ map (\<lambda>(k, t). AskGenerate k
          (SelectedPrompt k (fb_raw ?fb) (notes_for ?nm k) t)) parts"
    using select_each_asked [of gw "map fst parts" ?nm "fb_raw ?fb" parts "log LogSelectStart w"] all
    by simp
  also have "map (\<lambda>(k, t). AskGenerate k (SelectedPrompt k (fb_raw ?fb) (notes_for ?nm k) t)) parts
      = map (\<lambda>(k, t). AskGenerate k
          (SelectedPrompt k (fb_raw verdict @ u ''\<newline>'' @ strict_msg) forced_notes t)) parts"
    by (rule map_cong) (force simp: notes_for_def raw)+
  finally have asked: "asked (log LogSelectDone (snd ?sel)) = asked w @ map (\<lambda>(k, t). AskGenerate k
          (SelectedPrompt k (fb_raw verdict @ u ''\<newline>'' @ strict_msg) forced_notes t)) parts"
    by simp
  from run keys asked show ?thesis by blast
qed

text \<open>
  C8. On an abort verdict with budget left the loop does not end. The feedback is
  replaced by the raw feedback followed by the strict-rewrite directive, with every
  section as a target; the revision that follows asks the gateway once for each
  section, in order, with that feedback and the forced note; then the draft is merged
  again and the loop continues, with the verification of the new draft, its counter
  incremented by one.
\<close>

theorem abort_forces_full_rewrite:
  assumes "verify rt gw md (map fst parts) w = (Inr verdict, w1)"
    and "fb_status verdict = Some Abort"
    and "loops < cfg_max_feedback_loops cfg"
    and "\<forall>k\<in>set (map fst parts). clean_key k"
  shows "\<exists>parts' w4.
           revise rt gw parts (forced_feedback verdict parts)
             (log (LogLoop (Suc loops) (cfg_max_feedback_loops cfg)) (log LogAbortRewrite w1))
             = (Inr parts', w4)
         \<and> fb_targets (forced_feedback verdict parts) = PList (map forced_target parts)
         \<and> map fst parts' = map fst parts
         \<and> asked w4 = asked w1 @ map (\<lambda>(k, t). AskGenerate k
               (SelectedPrompt k (fb_raw verdict @ u ''\<newline>'' @ strict_msg) forced_notes t)) parts
         \<and> run_build_loop rt gw cfg parts md loops w
             = (case merge gw cfg parts' w4 of
                  (Inl e, w5) \<Rightarrow> (Inl e, w5)
                | (Inr md', w5) \<Rightarrow> run_build_loop rt gw cfg parts' md' (Suc loops) w5)"
proof -
  let ?w3 = "log (LogLoop (Suc loops) (cfg_max_feedback_loops cfg)) (log LogAbortRewrite w1)"
  from revise_forced [OF assms(4), of rt gw verdict ?w3]
  obtain parts' w4 where rev: "revise rt gw parts (forced_feedback verdict parts) ?w3 = (Inr parts', w4)"
    and keys: "map fst parts' = map fst parts"
    and asked: "asked w4 = asked ?w3 @ map (\<lambda>(k, t). AskGenerate k
          (SelectedPrompt k (fb_raw verdict @ u ''\<newline>'' @ strict_msg) forced_notes t)) parts"
    by blast
  have body: "loop_body rt gw cfg parts md loops w
      = (case merge gw cfg parts' w4 of
           (Inl e, w5) \<Rightarrow> (Raise e, w5)
         | (Inr md', w5) \<Rightarrow> (Again parts' md' (Suc loops), w5))"
    using assms(1-3) rev by (simp add: loop_body_def Let_def forced_feedback_def)
  have run: "run_build_loop rt gw cfg parts md loops w
      = (case merge gw cfg parts' w4 of
           (Inl e, w5) \<Rightarrow> (Inl e, w5)
         | (Inr md', w5) \<Rightarrow> run_build_loop rt gw cfg parts' md' (Suc loops) w5)"
  proof (cases "merge gw cfg parts' w4")
    case (Pair r w5)
    show ?thesis
    proof (cases r)
      case (Inl e)
      with Pair body show ?thesis by (simp add: run_raise)
    next
      case (Inr md')
      with Pair body show ?thesis by (simp add: run_again)
    qed
  qed
  from rev keys asked run forced_feedback_targets [of verdict parts] show ?thesis
    by (intro exI [of _ parts'] exI [of _ w4]) simp
qed

text \<open>
  C9. When the answer of the gateway is not JSON, the status is \<open>abort\<close> if the
  lower-cased text contains \<open>abort\<close>; otherwise \<open>ok\<close> if the lower-cased text contains
  \<open>pass\<close> or \<open>ok\<close> or the text contains the approval token; otherwise
  \<open>needs_revision\<close>. The raw text is returned and the targets are empty.
\<close>

theorem verify_fallback:
  assumes "gw (length (asked w)) (AskVerify draft_md section_keys) = Inr text"
    and "rt_json_loads rt text = None"
  shows "fst (verify rt gw draft_md section_keys w)
           = Inr \<lparr>fb_status = Some (if py_in (u ''abort'') (rt_lower rt text) then Abort
                                     else if py_in (u ''pass'') (rt_lower rt text)
                                             \<or> py_in approval_token text
                                             \<or> py_in (u ''ok'') (rt_lower rt text) then Ok
                                     else NeedsRevision),
                  fb_raw = text, fb_targets = PList [], fb_metrics = None\<rparr>"
  using assms by (simp add: verify_def ask_def fallback_status_def Let_def)

subsection \<open>Examples of verification and of the loop\<close>

lemmas verify_simps =
  verify_def ask_def log_def fallback_status_def decide_def overlap_of_def hcount_of_def
  decision_of_def match_reasons_def reasons_iter_def py_get_def py_or_def example_rt_def
  example_gateway_def start_def ascii_lower_def approval_token_def abort_json_def u_def Let_def

theorem verify_fallback_witness:
  "fst (verify example_rt (example_gateway (\<lambda>n. u ''I would ABORT this draft'')) (u ''d'') [u ''A''] start)
     = Inr \<lparr>fb_status = Some Abort, fb_raw = u ''I would ABORT this draft'',
            fb_targets = PList [], fb_metrics = None\<rparr>
   \<and> fst (verify example_rt (example_gateway (\<lambda>n. approval_token)) (u ''d'') [u ''A''] start)
     = Inr \<lparr>fb_status = Some Ok, fb_raw = approval_token, fb_targets = PList [], fb_metrics = None\<rparr>
   \<and> fst (verify example_rt (example_gateway (\<lambda>n. u ''revise section A'')) (u ''d'') [u ''A''] start)
     = Inr \<lparr>fb_status = Some NeedsRevision, fb_raw = u ''revise section A'',
            fb_targets = PList [], fb_metrics = None\<rparr>"
proof -
  have g: "example_gateway (\<lambda>n. t) (length (asked start)) (AskVerify (u ''d'') [u ''A'']) = Inr t" for t
    by (simp add: example_gateway_def)
  have n1: "rt_json_loads example_rt (u ''I would ABORT this draft'') = None"
    by (simp add: example_rt_def abort_json_def u_def)
  have n2: "rt_json_loads example_rt approval_token = None"
    by (simp add: example_rt_def abort_json_def approval_token_def u_def)
  have n3: "rt_json_loads example_rt (u ''revise section A'') = None"
    by (simp add: example_rt_def abort_json_def u_def)
  from verify_fallback [where gw = "example_gateway (\<lambda>n. u ''I would ABORT this draft'')" and w = start, OF g n1]
    verify_fallback [where gw = "example_gateway (\<lambda>n. approval_token)" and w = start, OF g n2]
    verify_fallback [where gw = "example_gateway (\<lambda>n. u ''revise section A'')" and w = start, OF g n3]
  show ?thesis
    by (simp add: example_rt_def ascii_lower_def approval_token_def u_def)
qed

definition example_config :: "nat \<Rightarrow> config" where
  "example_config n = \<lparr>cfg_title = u ''T'', cfg_max_feedback_loops = n, cfg_formatting = FormatNone\<rparr>"

theorem feedback_loop_bounded_witness:
  "fst (run_build_loop example_rt (example_gateway (\<lambda>n. u ''revise section A'')) (example_config 0)
          [(u ''A'', u ''a'')] (u ''draft'') 0 start)
     = Inr (u ''draft'', [(u ''A'', u ''a'')], 1)
   \<and> asked (snd (run_build_loop example_rt (example_gateway (\<lambda>n. u ''revise section A''))
          (example_config 0) [(u ''A'', u ''a'')] (u ''draft'') 0 start))
     = [AskVerify (u ''draft'') [u ''A'']]"
proof -
  let ?gw = "example_gateway (\<lambda>n. u ''revise section A'')"
  let ?verdict = "\<lparr>fb_status = Some NeedsRevision, fb_raw = u ''revise section A'',
                   fb_targets = PList [], fb_metrics = None\<rparr>"
  have zero: "cfg_max_feedback_loops (example_config 0) = 0"
    by (simp add: example_config_def)
  have v: "fst (verify example_rt ?gw (u ''draft'') (map fst [(u ''A'', u ''a'')]) start) = Inr ?verdict"
    by (simp add: verify_simps)
  have no: "fb_status ?verdict \<noteq> Some Ok" by simp
  from feedback_loop_bounded [of example_rt ?gw "example_config 0" "[(u ''A'', u ''a'')]" "u ''draft''" start]
    zero v no
  show ?thesis by (simp add: start_def)
qed

definition abort_then_pass :: "nat \<Rightarrow> pystr" where
  "abort_then_pass n = (if n = 0 then abort_json else u ''pass'')"

theorem abort_forces_full_rewrite_witness:
  "fst (run_build_loop example_rt (example_gateway abort_then_pass) (example_config 1)
          [(u ''A'', u ''a''), (u ''B'', u ''b'')] (u ''draft'') 0 start)
     = Inr (md_join (u ''T'') [(u ''A'', u ''new''), (u ''B'', u ''b'')],
            [(u ''A'', u ''new''), (u ''B'', u ''b'')], 1)
   \<and> asked (snd (run_build_loop example_rt (example_gateway abort_then_pass) (example_config 1)
          [(u ''A'', u ''a''), (u ''B'', u ''b'')] (u ''draft'') 0 start))
     = [AskVerify (u ''draft'') [u ''A'', u ''B''],
        AskGenerate (u ''A'')
          (SelectedPrompt (u ''A'') (abort_json @ u ''\<newline>'' @ strict_msg) forced_notes (u ''a'')),
        AskGenerate (u ''B'')
          (SelectedPrompt (u ''B'') (abort_json @ u ''\<newline>'' @ strict_msg) forced_notes (u ''b'')),
        AskVerify (md_join (u ''T'') [(u ''A'', u ''new''), (u ''B'', u ''b'')]) [u ''A'', u ''B'']]"
proof -
  let ?gw = "example_gateway abort_then_pass"
  let ?cfg = "example_config 1"
  let ?parts = "[(u ''A'', u ''a''), (u ''B'', u ''b'')]"
  let ?new = "[(u ''A'', u ''new''), (u ''B'', u ''b'')]"
  let ?md = "md_join (u ''T'') ?new"
  let ?verdict = "\<lparr>fb_status = Some Abort, fb_raw = abort_json, fb_targets = PList [],
                   fb_metrics = Some (Finite 0, 5)\<rparr>"
  let ?w1 = "\<lparr>asked = [AskVerify (u ''draft'') [u ''A'', u ''B'']],
              logged = [LogVerifyStart, LogVerdictAbort]\<rparr>"
  have v: "verify example_rt ?gw (u ''draft'') (map fst ?parts) start = (Inr ?verdict, ?w1)"
    by (simp add: verify_simps abort_then_pass_def)
  have st: "fb_status ?verdict = Some Abort" by simp
  have budget: "0 < cfg_max_feedback_loops ?cfg" by (simp add: example_config_def)
  have clean: "\<forall>k\<in>set (map fst ?parts). clean_key k"
    by (simp add: clean_key_def strip_def isspace_def u_def)
  from abort_forces_full_rewrite [OF v st budget clean]
  obtain parts' w4 where
    rev: "revise example_rt ?gw ?parts (forced_feedback ?verdict ?parts)
            (log (LogLoop (Suc 0) (cfg_max_feedback_loops ?cfg)) (log LogAbortRewrite ?w1)) = (Inr parts', w4)"
    and asked4: "asked w4 = asked ?w1 @ map (\<lambda>(k, t). AskGenerate k
          (SelectedPrompt k (fb_raw ?verdict @ u ''\<newline>'' @ strict_msg) forced_notes t)) ?parts"
    and run: "run_build_loop example_rt ?gw ?cfg ?parts (u ''draft'') 0 start
        = (case merge ?gw ?cfg parts' w4 of
             (Inl e, w5) \<Rightarrow> (Inl e, w5)
           | (Inr md', w5) \<Rightarrow> run_build_loop example_rt ?gw ?cfg parts' md' (Suc 0) w5)"
    by blast
  have "fst (revise example_rt ?gw ?parts (forced_feedback ?verdict ?parts)
            (log (LogLoop (Suc 0) (cfg_max_feedback_loops ?cfg)) (log LogAbortRewrite ?w1))) = Inr ?new"
    by (simp add: revise_def forced_feedback_def forced_notes_def example_simps)
  with rev have parts': "parts' = ?new" by simp
  have merged: "merge ?gw ?cfg parts' w4 = (Inr ?md, w4)"
    by (simp add: merge_def example_config_def parts')
  have asked4': "asked w4 = [AskVerify (u ''draft'') [u ''A'', u ''B''],
        AskGenerate (u ''A'')
          (SelectedPrompt (u ''A'') (abort_json @ u ''\<newline>'' @ strict_msg) forced_notes (u ''a'')),
        AskGenerate (u ''B'')
          (SelectedPrompt (u ''B'') (abort_json @ u ''\<newline>'' @ strict_msg) forced_notes (u ''b''))]"
    using asked4 by simp
  have ans: "?gw (length (asked w4)) (AskVerify ?md (map fst ?new)) = Inr (u ''pass'')"
    by (simp add: asked4' example_gateway_def abort_then_pass_def)
  have nojson: "rt_json_loads example_rt (u ''pass'') = None"
    by (simp add: example_rt_def abort_json_def u_def)
  have ok: "fallback_status example_rt (u ''pass'') = Ok"
    by (simp add: fallback_status_def example_rt_def ascii_lower_def u_def)
  have second: "loop_body example_rt ?gw ?cfg ?new ?md (Suc 0) w4
      = (Break ?md ?new (Suc 0), log LogApproved (log LogFallbackOk
           ((log LogVerifyStart w4)\<lparr>asked := asked w4 @ [AskVerify ?md (map fst ?new)]\<rparr>)))"
    using ans nojson ok by (simp add: loop_body_def verify_def ask_def Let_def)
  have "run_build_loop example_rt ?gw ?cfg ?parts (u ''draft'') 0 start
      = run_build_loop example_rt ?gw ?cfg ?new ?md (Suc 0) w4"
    using run merged parts' by simp
  also note run_break [OF second]
  finally show ?thesis
    using asked4' by simp
qed


section \<open>The section keys of a build\<close>

text \<open>
  \<open>PDFStructureAnalyst.analyze\<close> and \<open>Delegator.plan\<close>: each line of the answer that
  is not blank, stripped, is the key of a section; without such a line the three default
  lines are used.
\<close>

definition default_lines :: "pystr list" where
  "default_lines = [[49, 46, 32, 44060, 50836],
                    [50, 46, 32, 54645, 49900, 32, 44060, 45392],
                    [51, 46, 32, 50836, 50557]]"

definition analyze :: "runtime \<Rightarrow> gateway \<Rightarrow> world \<Rightarrow> (exn + section_plan list) \<times> world" where
  "analyze rt gw w =
     (case ask gw AskPlan (log LogAnalyzeStart w) of
        (Inl e, w1) \<Rightarrow> (Inl (GatewayError e), w1)
      | (Inr text, w1) \<Rightarrow>
          (let stripped = map strip (filter (\<lambda>l. strip l \<noteq> []) (rt_splitlines rt text));
               (lines, w2) = (if stripped = [] then (default_lines, log LogAnalyzeDefault w1)
                              else (stripped, w1));
               plans = map (\<lambda>line. \<lparr>plan_key = line, plan_prompt = PlanPrompt line\<rparr>) lines
           in (Inr plans, log (LogAnalyzed (length plans)) w2)))"

definition plan :: "runtime \<Rightarrow> gateway \<Rightarrow> world \<Rightarrow> (exn + section_plan list) \<times> world" where
  "plan rt gw w =
     (case analyze rt gw (log LogPlanStart w) of
        (Inl e, w') \<Rightarrow> (Inl e, w')
      | (Inr plans, w') \<Rightarrow> (Inr plans, log LogPlanDone w'))"

text \<open>
  The keys planned are clean, parallel generation returns them, and revision returns
  the keys it was given: every iteration of the loop sees clean keys.
\<close>

lemma strip_no_leading:
  assumes "strip s \<noteq> []"
  shows "\<not> isspace (hd (strip s))"
proof -
  let ?d = "dropWhile isspace s"
  have "rev ?d = takeWhile isspace (rev ?d) @ dropWhile isspace (rev ?d)" by simp
  then have "?d = rev (dropWhile isspace (rev ?d)) @ rev (takeWhile isspace (rev ?d))"
    by (metis rev_append rev_rev_ident)
  then have d: "?d = strip s @ rev (takeWhile isspace (rev ?d))" by (simp add: strip_def)
  have ne: "?d \<noteq> []"
  proof
    assume e: "?d = []"
    have "strip s = rev (dropWhile isspace (rev ?d))" by (simp only: strip_def)
    also have "\<dots> = []" by (simp only: e) simp
    finally show False using assms by simp
  qed
  then have "\<not> isspace (hd ?d)" by (rule hd_dropWhile)
  moreover from d assms have "hd ?d = hd (strip s)" by (metis hd_append2)
  ultimately show ?thesis by simp
qed

lemma strip_idem: "strip (strip s) = strip s"
proof (cases "strip s = []")
  case True
  have "strip [] = []" by (simp add: strip_def)
  with True show ?thesis by simp
next
  case False
  have a: "dropWhile isspace (strip s) = strip s"
    using strip_no_leading [OF False] by (simp add: dropWhile_eq_self_iff)
  have b: "dropWhile isspace (rev (strip s)) = rev (strip s)"
    by (simp add: strip_def)
  have "strip (strip s) = rev (dropWhile isspace (rev (dropWhile isspace (strip s))))"
    by (simp only: strip_def [of "strip s"])
  also have "\<dots> = rev (rev (strip s))" by (simp only: a b)
  finally show ?thesis by simp
qed

lemma default_lines_clean: "\<forall>k\<in>set default_lines. clean_key k"
  by (simp add: default_lines_def clean_key_def strip_def isspace_def)

lemma analyze_keys_clean:
  assumes "analyze rt gw w = (Inr plans, w')"
  shows "\<forall>p\<in>set plans. clean_key (plan_key p)"
proof -
  obtain r w1 where a: "ask gw AskPlan (log LogAnalyzeStart w) = (r, w1)"
    by (cases "ask gw AskPlan (log LogAnalyzeStart w)")
  show ?thesis
  proof (cases r)
    case (Inl e)
    with a assms show ?thesis by (simp add: analyze_def)
  next
    case (Inr t)
    let ?stripped = "map strip (filter (\<lambda>l. strip l \<noteq> []) (rt_splitlines rt t))"
    have s: "\<forall>k\<in>set ?stripped. clean_key k"
      by (auto simp: clean_key_def strip_idem)
    have "map plan_key plans = (if ?stripped = [] then default_lines else ?stripped)"
      using a Inr assms by (auto simp: analyze_def Let_def comp_def split: if_splits)
    then have "\<forall>k\<in>set (map plan_key plans). clean_key k"
      using s default_lines_clean by (simp split: if_splits)
    then show ?thesis by simp
  qed
qed

lemma plan_keys_clean:
  assumes "plan rt gw w = (Inr plans, w')"
  shows "\<forall>p\<in>set plans. clean_key (plan_key p)"
  using assms analyze_keys_clean [of rt gw "log LogPlanStart w" plans]
  by (auto simp: plan_def split: prod.splits sum.splits)

lemma generation_keys_clean:
  assumes "run_parallel_generation gen plans max_workers order = Inr parts"
    and "mset order = mset [0..<length plans]"
    and "\<forall>p\<in>set plans. clean_key (plan_key p)"
  shows "\<forall>k\<in>set (map fst parts). clean_key k"
proof -
  have parts: "parts = map (\<lambda>j. case make_tasks plans ! j of (task_id, section_prompt, k) \<Rightarrow>
                       (case do_one gen (task_id, section_prompt, k) of
                          Inr text \<Rightarrow> (k, text)
                        | Inl e \<Rightarrow> (k, u ''__ERROR__: '' @ e))) order"
    using assms(1)
    by (simp add: run_parallel_generation_def parallel_map_def split: if_splits)
  have "clean_key (fst (case make_tasks plans ! j of (task_id, section_prompt, k) \<Rightarrow>
                       (case do_one gen (task_id, section_prompt, k) of
                          Inr text \<Rightarrow> (k, text)
                        | Inl e \<Rightarrow> (k, u ''__ERROR__: '' @ e))))" if "j \<in> set order" for j
  proof -
    have j: "j < length plans" using assms(2) that by (rule order_in_range)
    then have "clean_key (plan_key (plans ! j))" using assms(3) by simp
    with j show ?thesis by (simp add: make_tasks_nth split: sum.splits)
  qed
  with parts show ?thesis by simp
qed

lemma revise_keys:
  assumes "revise rt gw parts fb w = (Inr parts', w')"
  shows "map fst parts' = map fst parts"
proof (cases "truthy (fb_targets fb)")
  case False
  with assms have "parts' = fst (revise_parts gw parts (fb_raw fb) w)"
    by (auto simp: revise_def split: prod.splits)
  then show ?thesis by (simp add: revise_parts_keys)
next
  case True
  with assms have sel: "revise_selected_parts rt gw parts fb w = (Inr parts', w')"
    by (simp add: revise_def)
  then obtain tk nm where ex: "extract_targets rt fb = Inr (tk, nm)"
    by (auto simp: revise_selected_parts_def split: sum.splits)
  show ?thesis
  proof (cases "tk = []")
    case True
    with ex sel show ?thesis by (auto simp: revise_selected_fallback revise_parts_keys)
  next
    case False
    with ex sel show ?thesis by (auto simp: revise_selected_targeted select_each_keys)
  qed
qed

lemma loop_body_keys:
  assumes "loop_body rt gw cfg parts md loops w = (Again parts' md' loops', w')"
  shows "map fst parts' = map fst parts"
  using assms
  by (auto simp: loop_body_def Let_def split: prod.splits sum.splits if_splits dest: revise_keys)

end
